theory Spec2Isabelle
  imports Main "HOL-Library.Word" "HOL-Library.Signed_Division"
begin

section \<open>The elevation map\<close>

text \<open>
  The C++ type \<open>int\<close> is a 32-bit two's complement integer.  Elevations, drops and
  distances are kept as 32-bit words: \<open>+\<close>, \<open>-\<close> and \<open>*\<close> wrap around (the
  behaviour of the compiled code; the language leaves signed overflow undefined),
  comparisons are the signed ones (\<open><s\<close>), and \<open>sint\<close> reads the value.  Row and
  column counts and cell indices are kept as integers: on a well-formed map every cell
  index that reaches the vectors is a cell of the grid (\<open>lower_neighbors_in_grid\<close>
  below), and the size of the grid fits 32 bits.  Integer division and remainder
  truncate towards zero (\<open>sdiv\<close>, \<open>smod\<close>).
\<close>

type_synonym int32 = "32 word"

record ElevationMap =
  rows :: int
  columns :: int
  size_m :: int
  data :: "int32 list"

text \<open>\<open>std::max\<close> on \<open>int\<close>: \<open>(a < b) ? b : a\<close>.\<close>

definition max_int32 :: "int32 \<Rightarrow> int32 \<Rightarrow> int32" where
  "max_int32 a b = (if a <s b then b else a)"

text \<open>
  \<open>ElevationMap::lower_neighbors\<close>.  The vector \<open>result\<close> grows by \<open>push_back\<close> in the
  order left, right, top, bottom.  Reading \<open>data\<close> outside its range and dividing
  by zero columns are undefined behaviour in the source; the theorems below are about
  cells of a grid with at least one column.
\<close>

definition lower_neighbors :: "ElevationMap \<Rightarrow> int \<Rightarrow> int list" where
  "lower_neighbors m index =
    (let row = index sdiv columns m;
         column = index smod columns m;
         elevation = data m ! nat index;
         result = [];
         result = (if column > 0 \<and> data m ! nat (index - 1) <s elevation
                   then result @ [index - 1] else result);
         result = (if column < columns m - 1 \<and> data m ! nat (index + 1) <s elevation
                   then result @ [index + 1] else result);
         result = (if row > 0 \<and> data m ! nat (index - columns m) <s elevation
                   then result @ [index - columns m] else result);
         result = (if row < rows m - 1 \<and> data m ! nat (index + columns m) <s elevation
                   then result @ [index + columns m] else result)
     in result)"

section \<open>The solver\<close>

record NodeState =
  visited :: bool
  distance :: int32
  drop_n :: int32

definition NodeState_init :: NodeState where
  "NodeState_init = \<lparr>visited = False, distance = 0, drop_n = 0\<rparr>"

text \<open>
  The body of the loop of \<open>dfs\<close> after the recursive call: the candidate through the
  neighbour \<open>u\<close> is compared with what \<open>states[v]\<close> holds.
\<close>

definition dfs_update :: "ElevationMap \<Rightarrow> int \<Rightarrow> int \<Rightarrow> NodeState list \<Rightarrow> NodeState list" where
  "dfs_update m v u states =
    (let distance' = distance (states ! nat u) + 1;
         drop' = drop_n (states ! nat u) + data m ! nat v - data m ! nat u
     in if distance (states ! nat v) <s distance'
        then states[nat v := (states ! nat v)\<lparr>distance := distance', drop_n := drop'\<rparr>]
        else if distance' = distance (states ! nat v)
        then states[nat v := (states ! nat v)\<lparr>drop_n := max_int32 (drop_n (states ! nat v)) drop'\<rparr>]
        else states)"

text \<open>
  \<open>dfs\<close>: the range-for loop over \<open>neighbors\<close> is a \<open>fold\<close> over the list, threading
  the vector \<open>states\<close>.  The recursion descends to a strictly lower elevation.
\<close>

function (domintros) dfs :: "ElevationMap \<Rightarrow> int \<Rightarrow> NodeState list \<Rightarrow> NodeState list" where
  "dfs m v states =
    (let neighbors = lower_neighbors m v;
         states = fold (\<lambda>u states.
                     dfs_update m v u (if \<not> visited (states ! nat u) then dfs m u states else states))
                   neighbors states
     in states[nat v := (states ! nat v)\<lparr>visited := True\<rparr>])"
  by pat_completeness auto
termination
proof (relation "measure (\<lambda>(m, v, states). nat (sint (data m ! nat v) + 2 ^ 31))")
  show "wf (measure (\<lambda>(m, v, states). nat (sint (data m ! nat v) + 2 ^ 31)))"
    by simp
next
  fix m :: ElevationMap and v :: int and states x :: "NodeState list"
    and neighbors :: "int list" and u :: int
  assume "neighbors = lower_neighbors m v" and "u \<in> set neighbors"
  then have "data m ! nat u <s data m ! nat v"
    by (auto simp: lower_neighbors_def Let_def split: if_splits)
  then have "sint (data m ! nat u) < sint (data m ! nat v)"
    by (simp add: word_sless_alt)
  moreover have "- (2 ^ 31) \<le> sint (data m ! nat u)"
    using sint_ge [of "data m ! nat u"] by simp
  ultimately show "((m, u, x), (m, v, states))
      \<in> measure (\<lambda>(m, v, states). nat (sint (data m ! nat v) + 2 ^ 31))"
    by simp
qed

text \<open>
  \<open>solve\<close>: the loop over all cells, carrying \<open>states\<close>, \<open>max_distance\<close> and
  \<open>max_drop\<close>.
\<close>

function solve_loop :: "ElevationMap \<Rightarrow> int \<Rightarrow> NodeState list \<times> int32 \<times> int32
    \<Rightarrow> NodeState list \<times> int32 \<times> int32" where
  "solve_loop m v (states, max_distance, max_drop) =
    (if v < size_m m then
       let states = (if \<not> visited (states ! nat v) then dfs m v states else states);
           (max_distance, max_drop) =
             (if max_distance <s distance (states ! nat v)
              then (distance (states ! nat v), drop_n (states ! nat v))
              else if distance (states ! nat v) = max_distance
              then (max_distance, max_int32 max_drop (drop_n (states ! nat v)))
              else (max_distance, max_drop))
       in solve_loop m (v + 1) (states, max_distance, max_drop)
     else (states, max_distance, max_drop))"
  by pat_completeness auto
termination
  by (relation "measure (\<lambda>(m, v, s). nat (size_m m - v))") auto

text \<open>
  The state of \<open>solve\<close> when its loop ends, and the two lines it prints: each line is
  the label and the number that follows it.
\<close>

definition solve_final :: "ElevationMap \<Rightarrow> NodeState list \<times> int32 \<times> int32" where
  "solve_final m = solve_loop m 0 (replicate (nat (size_m m)) NodeState_init, 0, 0)"

definition solve :: "ElevationMap \<Rightarrow> (string \<times> int) list" where
  "solve m =
    (let (states, max_distance, max_drop) = solve_final m
     in [(''Length: '', sint (max_distance + 1)), (''Drop: '', sint max_drop)])"

section \<open>The driver\<close>

text \<open>
  The input stream is the list of the integers it holds, already split at white space.
  An extraction from an exhausted stream fails and leaves \<open>0\<close> in the variable (all of
  them start at \<open>0\<close>).
\<close>

fun extract_int :: "int32 list \<Rightarrow> int32 \<times> int32 list" where
  "extract_int [] = (0, [])"
| "extract_int (t # ts) = (t, ts)"

fun read_data :: "nat \<Rightarrow> int32 list \<Rightarrow> int32 list" where
  "read_data 0 ts = []"
| "read_data (Suc n) ts = (let (datum, ts) = extract_int ts in datum # read_data n ts)"

text \<open>
  \<open>ElevationMap::read\<close>.  The product \<open>rows * columns\<close> is a 32-bit product;
  \<open>data.resize\<close> with a negative size throws \<open>std::length_error\<close>.
\<close>

datatype exception = length_error

definition read :: "int32 list \<Rightarrow> exception + ElevationMap" where
  "read ts =
    (let (c, ts) = extract_int ts;
         (r, ts) = extract_int ts;
         size = sint (r * c)
     in if size < 0 then Inl length_error
        else Inr \<lparr>rows = sint r, columns = sint c, size_m = size,
                  data = read_data (nat size) ts\<rparr>)"

text \<open>
  \<open>main\<close>: the arguments are \<open>argv\<close> (\<open>argc\<close> is its length), the file system maps a
  path to the stream of the file, or to nothing when it cannot be opened.  An exception
  nobody catches ends the process in \<open>std::terminate\<close>.
\<close>

datatype exit_status = Returned int | Terminated

record process_result =
  status :: exit_status
  stdout :: "(string \<times> int) list"
  stderr :: "string list"

definition main :: "string list \<Rightarrow> (string \<rightharpoonup> int32 list) \<Rightarrow> process_result" where
  "main argv files =
    (let argc = int (length argv)
     in if argc < 2
        then \<lparr>status = Returned 1, stdout = [],
              stderr = [''Usage: redmart /path/to/map/file'']\<rparr>
        else case files (argv ! 1) of
          None \<Rightarrow> \<lparr>status = Returned 1, stdout = [],
                    stderr = [''Can'' @ [CHR 0x27] @ ''t open '' @ argv ! 1]\<rparr>
        | Some file \<Rightarrow>
            (case read file of
               Inl e \<Rightarrow> \<lparr>status = Terminated, stdout = [], stderr = []\<rparr>
             | Inr map_e \<Rightarrow> \<lparr>status = Returned 0, stdout = solve map_e, stderr = []\<rparr>))"

section \<open>Well-formed maps and the grid geometry of the specification\<close>

text \<open>
  A well-formed map: at least one row and one column, \<open>size\<close> the product of both and
  the length of \<open>data\<close>, all of it within 32 bits, and no negative elevation.
\<close>

definition wf_map :: "ElevationMap \<Rightarrow> bool" where
  "wf_map m \<longleftrightarrow>
     1 \<le> columns m \<and> 1 \<le> rows m \<and> size_m m = rows m * columns m \<and>
     int (length (data m)) = size_m m \<and> size_m m < 2 ^ 31 \<and>
     (\<forall>e \<in> set (data m). 0 \<le> sint e)"

text \<open>
  What the proofs about the solver need of a map: the shape of a well-formed map, and
  that the difference of any two elevations fits 32 bits (as it does when no elevation
  is negative).
\<close>

definition safe_map :: "ElevationMap \<Rightarrow> bool" where
  "safe_map m \<longleftrightarrow>
     1 \<le> columns m \<and> 1 \<le> rows m \<and> size_m m = rows m * columns m \<and>
     int (length (data m)) = size_m m \<and> size_m m < 2 ^ 31 \<and>
     (\<forall>a \<in> set (data m). \<forall>b \<in> set (data m). sint a - sint b < 2 ^ 31)"

definition in_grid :: "ElevationMap \<Rightarrow> int \<Rightarrow> bool" where
  "in_grid m i \<longleftrightarrow> 0 \<le> i \<and> i < size_m m"

text \<open>The cell \<open>(r, c)\<close> has the index \<open>r * C + c\<close>.\<close>

definition cell_row :: "ElevationMap \<Rightarrow> int \<Rightarrow> int" where
  "cell_row m i = i div columns m"

definition cell_column :: "ElevationMap \<Rightarrow> int \<Rightarrow> int" where
  "cell_column m i = i mod columns m"

text \<open>Two cells of the grid are 4-neighbours when they are one step apart in a row
  or in a column.\<close>

definition neighbor4 :: "ElevationMap \<Rightarrow> int \<Rightarrow> int \<Rightarrow> bool" where
  "neighbor4 m i j \<longleftrightarrow>
     in_grid m i \<and> in_grid m j \<and>
     \<bar>cell_row m i - cell_row m j\<bar> + \<bar>cell_column m i - cell_column m j\<bar> = 1"

text \<open>The 4 by 4 map of the specification's sixth scenario.\<close>

definition redmart_4x4 :: ElevationMap where
  "redmart_4x4 = \<lparr>rows = 4, columns = 4, size_m = 16,
     data = [4, 8, 7, 3, 2, 5, 9, 3, 6, 3, 2, 5, 4, 4, 1, 6]\<rparr>"

text \<open>The row of four cells of the specification's third scenario.\<close>

definition monotone_row :: ElevationMap where
  "monotone_row = \<lparr>rows = 1, columns = 4, size_m = 4, data = [1, 2, 3, 4]\<rparr>"

text \<open>The plateau and the branching peak of the second and fifth scenarios, and the
  two rows of the fourth one (a tie on the length, decided by the drop).\<close>

definition plateau_2x2 :: ElevationMap where
  "plateau_2x2 = \<lparr>rows = 2, columns = 2, size_m = 4, data = [3, 3, 3, 3]\<rparr>"

definition branching_peak :: ElevationMap where
  "branching_peak = \<lparr>rows = 3, columns = 3, size_m = 9, data = [1, 2, 1, 2, 9, 2, 1, 2, 1]\<rparr>"

definition tie_break_3x2 :: ElevationMap where
  "tie_break_3x2 = \<lparr>rows = 2, columns = 3, size_m = 6, data = [10, 5, 4, 10, 9, 0]\<rparr>"

section \<open>The specification of the solver\<close>

text \<open>The elevation of a cell, as the integer the 32 bits stand for.\<close>

definition elev :: "ElevationMap \<Rightarrow> int \<Rightarrow> int" where
  "elev m i = sint (data m ! nat i)"

text \<open>
  The reduction of the specification, in the arithmetic of the code.  A pair holds a
  distance (the length less one) and a drop.  The candidate through the lower neighbour
  \<open>u\<close> adds one step and the difference of the two elevations to the pair of \<open>u\<close>;
  a strictly larger distance replaces the current pair, an equal one keeps the larger
  drop, a smaller one is discarded.  \<open>node_value\<close> reduces the candidates of all lower
  neighbours, starting from \<open>(0, 0)\<close>, without any memo table.
\<close>

definition candidate :: "ElevationMap \<Rightarrow> int \<Rightarrow> int \<Rightarrow> int32 \<times> int32 \<Rightarrow> int32 \<times> int32" where
  "candidate m v u s = (fst s + 1, snd s + data m ! nat v - data m ! nat u)"

definition better :: "int32 \<times> int32 \<Rightarrow> int32 \<times> int32 \<Rightarrow> int32 \<times> int32" where
  "better cur new =
    (if fst cur <s fst new then new
     else if fst new = fst cur then (fst cur, max_int32 (snd cur) (snd new))
     else cur)"

function node_value :: "ElevationMap \<Rightarrow> int \<Rightarrow> int32 \<times> int32" where
  "node_value m v =
     fold (\<lambda>u cur. better cur (candidate m v u (node_value m u))) (lower_neighbors m v) (0, 0)"
  by pat_completeness auto
termination
proof (relation "measure (\<lambda>(m, v). nat (sint (data m ! nat v) + 2 ^ 31))")
  show "wf (measure (\<lambda>(m, v). nat (sint (data m ! nat v) + 2 ^ 31)))"
    by simp
next
  fix m :: ElevationMap and v u :: int
  assume "u \<in> set (lower_neighbors m v)"
  then have "data m ! nat u <s data m ! nat v"
    by (auto simp: lower_neighbors_def Let_def split: if_splits)
  then have "sint (data m ! nat u) < sint (data m ! nat v)"
    by (simp add: word_sless_alt)
  moreover have "- (2 ^ 31) \<le> sint (data m ! nat u)"
    using sint_ge [of "data m ! nat u"] by simp
  ultimately show "((m, u), (m, v)) \<in> measure (\<lambda>(m, v). nat (sint (data m ! nat v) + 2 ^ 31))"
    by simp
qed

text \<open>What the memo table holds for a cell once it is done.\<close>

definition final_state :: "ElevationMap \<Rightarrow> int \<Rightarrow> NodeState" where
  "final_state m v =
     \<lparr>visited = True, distance = fst (node_value m v), drop_n = snd (node_value m v)\<rparr>"

text \<open>
  A descending path is a non-empty list of cells of the grid in which each cell is a
  4-neighbour of the one before it and strictly lower.  Its drop is the elevation of
  its first cell less that of its last cell.
\<close>

fun descending_path :: "ElevationMap \<Rightarrow> int list \<Rightarrow> bool" where
  "descending_path m [] = False"
| "descending_path m [v] = in_grid m v"
| "descending_path m (v # u # p) =
     (neighbor4 m v u \<and> elev m u < elev m v \<and> descending_path m (u # p))"

definition paths_from :: "ElevationMap \<Rightarrow> int \<Rightarrow> int list set" where
  "paths_from m v = {p. descending_path m p \<and> hd p = v}"

definition path_drop :: "ElevationMap \<Rightarrow> int list \<Rightarrow> int" where
  "path_drop m p = elev m (hd p) - elev m (last p)"

text \<open>
  "Longest first, then deepest": paths are compared by length, and paths of the same
  length by drop.  \<open>is_best m S (L, D)\<close> says that \<open>L\<close> is the greatest length of a path
  in \<open>S\<close> and \<open>D\<close> the greatest drop of a path of that length in \<open>S\<close>.
\<close>

definition score :: "ElevationMap \<Rightarrow> int list \<Rightarrow> int \<times> int" where
  "score m p = (int (length p), path_drop m p)"

definition lex_le :: "int \<times> int \<Rightarrow> int \<times> int \<Rightarrow> bool" where
  "lex_le a b \<longleftrightarrow> fst a < fst b \<or> (fst a = fst b \<and> snd a \<le> snd b)"

definition lex_max :: "int \<times> int \<Rightarrow> int \<times> int \<Rightarrow> int \<times> int" where
  "lex_max a b = (if lex_le a b then b else a)"

definition is_best :: "ElevationMap \<Rightarrow> int list set \<Rightarrow> int \<times> int \<Rightarrow> bool" where
  "is_best m S x \<longleftrightarrow> (\<exists>p\<in>S. score m p = x) \<and> (\<forall>p\<in>S. lex_le (score m p) x)"

text \<open>The length in cells and the drop that a pair of the code stands for.\<close>

definition reading :: "int32 \<times> int32 \<Rightarrow> int \<times> int" where
  "reading s = (sint (fst s) + 1, sint (snd s))"

text \<open>
  The memo table during the traversal.  A visited cell holds its final value; a cell not
  yet visited and not above the level \<open>h\<close> is as it was initialised (a cell above \<open>h\<close>
  may be one whose loop is running).  \<open>evolves m v h st st'\<close>: away from \<open>v\<close>, a cell
  either keeps its state or goes from unvisited to final, the latter only at or below
  the level \<open>h\<close>.
\<close>

definition memo_inv :: "ElevationMap \<Rightarrow> int \<Rightarrow> NodeState list \<Rightarrow> bool" where
  "memo_inv m h st \<longleftrightarrow>
     length st = nat (size_m m) \<and>
     (\<forall>w. in_grid m w \<longrightarrow>
        (if visited (st ! nat w) then st ! nat w = final_state m w
         else elev m w \<le> h \<longrightarrow> st ! nat w = NodeState_init))"

definition evolves :: "ElevationMap \<Rightarrow> int \<Rightarrow> int \<Rightarrow> NodeState list \<Rightarrow> NodeState list \<Rightarrow> bool" where
  "evolves m v h st st' \<longleftrightarrow>
     length st' = length st \<and>
     (\<forall>w. in_grid m w \<and> w \<noteq> v \<longrightarrow>
        st' ! nat w = st ! nat w \<or>
        (\<not> visited (st ! nat w) \<and> elev m w \<le> h \<and> st' ! nat w = final_state m w))"

definition all_paths :: "ElevationMap \<Rightarrow> int list set" where
  "all_paths m = {p. descending_path m p}"

text \<open>
  The results of the specification.  \<open>length_of m v\<close> is the greatest length of a
  descending path from \<open>v\<close>, \<open>drop_of m v\<close> the greatest drop of a path of that length
  from \<open>v\<close>; \<open>best_length\<close> is the greatest \<open>length_of\<close> of a cell and \<open>best_drop\<close>
  the greatest \<open>drop_of\<close> of a cell whose \<open>length_of\<close> is \<open>best_length\<close>.
\<close>

definition length_of :: "ElevationMap \<Rightarrow> int \<Rightarrow> int" where
  "length_of m v = Max {int (length p) | p. p \<in> paths_from m v}"

definition drop_of :: "ElevationMap \<Rightarrow> int \<Rightarrow> int" where
  "drop_of m v = Max {path_drop m p | p. p \<in> paths_from m v \<and> int (length p) = length_of m v}"

definition best_length :: "ElevationMap \<Rightarrow> int" where
  "best_length m = Max {length_of m v | v. in_grid m v}"

definition best_drop :: "ElevationMap \<Rightarrow> int" where
  "best_drop m = Max {drop_of m v | v. in_grid m v \<and> length_of m v = best_length m}"

text \<open>
  The map with \<open>c\<close> added to every elevation, and the map with every elevation
  multiplied by \<open>k\<close>, each new elevation stored in 32 bits.
\<close>

definition add_elev :: "int \<Rightarrow> ElevationMap \<Rightarrow> ElevationMap" where
  "add_elev c m = m\<lparr>data := map (\<lambda>e. word_of_int (sint e + c)) (data m)\<rparr>"

definition scale_elev :: "int \<Rightarrow> ElevationMap \<Rightarrow> ElevationMap" where
  "scale_elev k m = m\<lparr>data := map (\<lambda>e. word_of_int (k * sint e)) (data m)\<rparr>"

text \<open>The recursive equations are unfolded by hand only.\<close>

declare dfs.simps [simp del] node_value.simps [simp del] solve_loop.simps [simp del]

section \<open>The neighbour enumeration\<close>

lemma wf_map_safe:
  assumes "wf_map m"
  shows "safe_map m"
proof -
  have "sint a - sint b < 2 ^ 31" if "a \<in> set (data m)" "b \<in> set (data m)" for a b
    using that assms sint_lt [of a] by (simp add: wf_map_def) fastforce
  with assms show ?thesis by (simp add: wf_map_def safe_map_def)
qed

lemma sdiv_nonneg: "0 \<le> i \<Longrightarrow> 0 < c \<Longrightarrow> i sdiv c = (i::int) div c"
  by (simp add: signed_divide_int_def sgn_if)

lemma smod_nonneg: "0 \<le> i \<Longrightarrow> 0 < c \<Longrightarrow> i smod c = (i::int) mod c"
  by (simp add: signed_modulo_int_def sgn_if)

lemma div_less_rows:
  assumes "0 < (C::int)" "x < R * C"
  shows "x div C < R"
proof -
  have "x = (x div C) * C + x mod C" by simp
  moreover have "0 \<le> x mod C" using assms by simp
  ultimately have "(x div C) * C \<le> x" by linarith
  with assms have "(x div C) * C < R * C" by linarith
  with assms show ?thesis by simp
qed

lemma rc_less:
  assumes "0 < (C::int)" "r < R" "c < C"
  shows "r * C + c < R * C"
proof -
  have "r * C \<le> (R - 1) * C" using assms by (intro mult_right_mono) simp_all
  then show ?thesis using assms by (simp add: algebra_simps)
qed

lemma in_grid_coords:
  assumes "safe_map m" "in_grid m x"
  shows "x = cell_row m x * columns m + cell_column m x"
    and "0 \<le> cell_column m x" and "cell_column m x < columns m"
    and "0 \<le> cell_row m x" and "cell_row m x < rows m"
  using assms
  by (simp_all add: safe_map_def in_grid_def cell_row_def cell_column_def
        pos_imp_zdiv_nonneg_iff div_less_rows)

lemma coords_in_grid:
  assumes "safe_map m" "0 \<le> r" "r < rows m" "0 \<le> c" "c < columns m"
  shows "in_grid m (r * columns m + c)"
    and "cell_row m (r * columns m + c) = r"
    and "cell_column m (r * columns m + c) = c"
  using assms
  by (simp_all add: safe_map_def in_grid_def cell_row_def cell_column_def rc_less)

text \<open>The 4-neighbours of a cell, by index: left, right, top, bottom, each one only
  when the cell is not on that border.\<close>

lemma neighbor4_iff:
  assumes wf: "safe_map m" and i: "in_grid m i"
  shows "neighbor4 m i j \<longleftrightarrow>
     (j = i - 1 \<and> 0 < cell_column m i) \<or>
     (j = i + 1 \<and> cell_column m i < columns m - 1) \<or>
     (j = i - columns m \<and> 0 < cell_row m i) \<or>
     (j = i + columns m \<and> cell_row m i < rows m - 1)"
    (is "?L \<longleftrightarrow> ?R")
proof
  note I = in_grid_coords [OF wf i]
  assume ?L
  then have j: "in_grid m j"
    and d: "\<bar>cell_row m i - cell_row m j\<bar> + \<bar>cell_column m i - cell_column m j\<bar> = 1"
    by (simp_all add: neighbor4_def)
  note J = in_grid_coords [OF wf j]
  from d consider
      "cell_row m j = cell_row m i" "cell_column m j = cell_column m i - 1"
    | "cell_row m j = cell_row m i" "cell_column m j = cell_column m i + 1"
    | "cell_row m j = cell_row m i - 1" "cell_column m j = cell_column m i"
    | "cell_row m j = cell_row m i + 1" "cell_column m j = cell_column m i"
    by linarith
  then show ?R
  proof cases
    case 1
    with I J show ?thesis by (simp add: algebra_simps)
  next
    case 2
    with I J show ?thesis by (simp add: algebra_simps)
  next
    case 3
    with I J show ?thesis by (simp add: algebra_simps)
  next
    case 4
    with I J show ?thesis by (simp add: algebra_simps)
  qed
next
  note I = in_grid_coords [OF wf i]
  assume ?R
  then consider
      (l) "j = cell_row m i * columns m + (cell_column m i - 1)" "0 < cell_column m i"
    | (r) "j = cell_row m i * columns m + (cell_column m i + 1)"
          "cell_column m i < columns m - 1"
    | (t) "j = (cell_row m i - 1) * columns m + cell_column m i" "0 < cell_row m i"
    | (b) "j = (cell_row m i + 1) * columns m + cell_column m i"
          "cell_row m i < rows m - 1"
    using I(1) by (auto simp: algebra_simps)
  then show ?L
  proof cases
    case l
    with I coords_in_grid [OF wf, of "cell_row m i" "cell_column m i - 1"] i
    show ?thesis by (simp add: neighbor4_def)
  next
    case r
    with I coords_in_grid [OF wf, of "cell_row m i" "cell_column m i + 1"] i
    show ?thesis by (simp add: neighbor4_def)
  next
    case t
    with I coords_in_grid [OF wf, of "cell_row m i - 1" "cell_column m i"] i
    show ?thesis by (simp add: neighbor4_def)
  next
    case b
    with I coords_in_grid [OF wf, of "cell_row m i + 1" "cell_column m i"] i
    show ?thesis by (simp add: neighbor4_def)
  qed
qed

lemma lower_neighbors_eq:
  assumes wf: "safe_map m" and i: "in_grid m i"
  shows "lower_neighbors m i =
    filter (\<lambda>j. data m ! nat j <s data m ! nat i)
      ((if 0 < cell_column m i then [i - 1] else []) @
       (if cell_column m i < columns m - 1 then [i + 1] else []) @
       (if 0 < cell_row m i then [i - columns m] else []) @
       (if cell_row m i < rows m - 1 then [i + columns m] else []))"
proof -
  have "0 \<le> i" "0 < columns m"
    using wf i by (simp_all add: safe_map_def in_grid_def)
  then have "i sdiv columns m = cell_row m i" "i smod columns m = cell_column m i"
    by (simp_all add: sdiv_nonneg smod_nonneg cell_row_def cell_column_def)
  then show ?thesis
    by (simp add: lower_neighbors_def Let_def)
qed

lemma lower_neighbors_set:
  assumes wf: "safe_map m" and i: "in_grid m i"
  shows "set (lower_neighbors m i) = {j. neighbor4 m i j \<and> data m ! nat j <s data m ! nat i}"
  unfolding lower_neighbors_eq [OF wf i] neighbor4_iff [OF wf i]
  by (auto split: if_splits)

lemma wf_redmart_4x4: "wf_map redmart_4x4"
  by (simp add: wf_map_def redmart_4x4_def)

text \<open>
  C2.  On a well-formed map and for a cell \<open>i\<close> of the grid, \<open>lower_neighbors\<close>
  returns exactly the cells \<open>j\<close> that are 4-neighbours of \<open>i\<close> with an elevation
  strictly below that of \<open>i\<close>, each of them once.  A neighbour that a border cell
  lacks is not a cell of the grid, and a neighbour of equal elevation is left out.
\<close>

theorem lower_neighbors_exact:
  assumes wf: "wf_map m" and i: "in_grid m i"
  shows "set (lower_neighbors m i) = {j. neighbor4 m i j \<and> elev m j < elev m i}
    \<and> distinct (lower_neighbors m i)"
proof
  have safe: "safe_map m" using wf by (rule wf_map_safe)
  show "set (lower_neighbors m i) = {j. neighbor4 m i j \<and> elev m j < elev m i}"
    unfolding lower_neighbors_set [OF safe i] by (simp add: elev_def word_sless_alt)
  have "0 < columns m" using wf by (simp add: wf_map_def)
  then show "distinct (lower_neighbors m i)"
    unfolding lower_neighbors_eq [OF safe i]
    using in_grid_coords(2,3) [OF safe i] by (intro distinct_filter) auto
qed

theorem lower_neighbors_exact_witness:
  "wf_map redmart_4x4 \<and> in_grid redmart_4x4 6 \<and>
   set (lower_neighbors redmart_4x4 6) =
     {j. neighbor4 redmart_4x4 6 j \<and> elev redmart_4x4 j < elev redmart_4x4 6} \<and>
   lower_neighbors redmart_4x4 6 = [5, 7, 2, 10]"
proof -
  have g: "in_grid redmart_4x4 6"
    by (simp add: in_grid_def redmart_4x4_def)
  have "lower_neighbors redmart_4x4 6 = [5, 7, 2, 10]"
    by (simp add: lower_neighbors_def redmart_4x4_def sdiv_nonneg smod_nonneg)
  with lower_neighbors_exact [OF wf_redmart_4x4 g] wf_redmart_4x4 g
  show ?thesis by simp
qed

section \<open>The driver's exits\<close>

lemma solve_empty:
  assumes "size_m m = 0"
  shows "solve m = [(''Length: '', 1), (''Drop: '', 0)]"
  using assms by (simp add: solve_def solve_final_def solve_loop.simps)

text \<open>
  C3, as the code has it.  No error is raised for an empty grid: when the map read from
  the file has size \<open>0\<close>, the loop of \<open>solve\<close> does not run, the two lines
  \<open>Length: 1\<close> and \<open>Drop: 0\<close> are printed, nothing goes to standard error and
  \<open>main\<close> returns \<open>0\<close>.
\<close>

theorem empty_grid_prints_and_returns_0:
  assumes "files path = Some file" and "read file = Inr m" and "size_m m = 0"
  shows "main (prog # path # rest) files =
    \<lparr>status = Returned 0, stdout = [(''Length: '', 1), (''Drop: '', 0)], stderr = []\<rparr>"
  using assms by (simp add: main_def solve_empty)

theorem empty_grid_prints_and_returns_0_witness:
  "[''map'' \<mapsto> [0, 0]] ''map'' = Some [0, 0] \<and>
   read [0, 0] = Inr \<lparr>rows = 0, columns = 0, size_m = 0, data = []\<rparr> \<and>
   size_m \<lparr>rows = 0, columns = 0, size_m = 0, data = []\<rparr> = 0 \<and>
   main (''redmart'' # ''map'' # []) [''map'' \<mapsto> [0, 0]] =
    \<lparr>status = Returned 0, stdout = [(''Length: '', 1), (''Drop: '', 0)], stderr = []\<rparr>"
proof -
  have f: "[''map'' \<mapsto> [0, 0 :: int32]] ''map'' = Some [0, 0]" by simp
  have r: "read [0, 0] = Inr \<lparr>rows = 0, columns = 0, size_m = 0, data = []\<rparr>"
    by (simp add: read_def)
  have s: "size_m \<lparr>rows = 0, columns = 0, size_m = 0, data = []\<rparr> = 0" by simp
  from empty_grid_prints_and_returns_0
    [of "[''map'' \<mapsto> [0, 0]]" "''map''" "[0, 0]"
        "\<lparr>rows = 0, columns = 0, size_m = 0, data = []\<rparr>" "''redmart''" "[]", OF f r s] f r s
  show ?thesis by simp
qed

text \<open>
  The claim C3 of the specification fails on the code: the file holding \<open>0 3\<close> (no
  column, three rows) is an empty grid, and the program prints both result lines and
  returns \<open>0\<close>.
\<close>

theorem empty_grid_no_error_counterexample:
  "read [0, 3] = Inr \<lparr>rows = 3, columns = 0, size_m = 0, data = []\<rparr> \<and>
   main [''redmart'', ''map''] [''map'' \<mapsto> [0, 3]] =
    \<lparr>status = Returned 0, stdout = [(''Length: '', 1), (''Drop: '', 0)], stderr = []\<rparr>"
  by (simp add: main_def read_def solve_empty)

text \<open>
  C4, as the code has it.  With no path argument (\<open>argc < 2\<close>) the usage line goes to
  standard error, nothing to standard output, and \<open>main\<close> returns \<open>1\<close>.  Arguments
  after the path are not looked at: the run is the one with the path alone.
\<close>

theorem usage_error_iff_path_missing:
  "(length argv < 2 \<longrightarrow>
      main argv files =
        \<lparr>status = Returned 1, stdout = [],
         stderr = [''Usage: redmart /path/to/map/file'']\<rparr>) \<and>
   main (prog # path # rest) files = main [prog, path] files"
  by (simp add: main_def split: option.splits)

theorem usage_error_iff_path_missing_witness:
  "length [''redmart''] < 2 \<and>
   main [''redmart''] Map.empty =
     \<lparr>status = Returned 1, stdout = [], stderr = [''Usage: redmart /path/to/map/file'']\<rparr> \<and>
   main (''redmart'' # ''map'' # [''more'']) Map.empty = main [''redmart'', ''map''] Map.empty"
  using usage_error_iff_path_missing [of "[''redmart'']" Map.empty "''redmart''" "''map''" "[''more'']"]
  by simp

text \<open>
  The claim C4 of the specification fails on the code for extra arguments: with a
  second argument after the path, the map of one cell is solved, nothing goes to
  standard error and \<open>main\<close> returns \<open>0\<close>.
\<close>

theorem extra_argument_no_usage_error_counterexample:
  "main [''redmart'', ''map'', ''extra''] [''map'' \<mapsto> [1, 1, 5]] =
    \<lparr>status = Returned 0, stdout = [(''Length: '', 1), (''Drop: '', 0)], stderr = []\<rparr>"
  by (simp add: main_def read_def solve_def solve_final_def lower_neighbors_def
      NodeState_init_def max_int32_def solve_loop.simps dfs.simps)

section \<open>The 4 by 4 scenario\<close>

lemma solve_redmart_4x4: "solve redmart_4x4 = [(''Length: '', 5), (''Drop: '', 8)]"
  by code_simp

lemma read_redmart_4x4:
  "read [4, 4, 4, 8, 7, 3, 2, 5, 9, 3, 6, 3, 2, 5, 4, 4, 1, 6] = Inr redmart_4x4"
  by (simp add: read_def redmart_4x4_def eval_nat_numeral)

text \<open>
  C8.  Run on the file that holds \<open>4 4\<close> and the rows \<open>4 8 7 3\<close>, \<open>2 5 9 3\<close>,
  \<open>6 3 2 5\<close>, \<open>4 4 1 6\<close>, the program prints \<open>Length: 5\<close> and \<open>Drop: 8\<close> and
  returns \<open>0\<close>.
\<close>

theorem redmart_4x4_output:
  "main [''redmart'', ''map'']
     [''map'' \<mapsto> [4, 4, 4, 8, 7, 3, 2, 5, 9, 3, 6, 3, 2, 5, 4, 4, 1, 6]] =
     \<lparr>status = Returned 0, stdout = [(''Length: '', 5), (''Drop: '', 8)], stderr = []\<rparr>"
  by (simp add: main_def read_redmart_4x4 solve_redmart_4x4)

section \<open>Termination of the traversal\<close>

lemma lower_neighbors_lower:
  "u \<in> set (lower_neighbors m v) \<Longrightarrow> data m ! nat u <s data m ! nat v"
  by (auto simp: lower_neighbors_def Let_def split: if_splits)

lemma lower_neighbors_measure:
  assumes "u \<in> set (lower_neighbors m v)"
  shows "nat (sint (data m ! nat u) + 2 ^ 31) < nat (sint (data m ! nat v) + 2 ^ 31)"
proof -
  have "sint (data m ! nat u) < sint (data m ! nat v)"
    using lower_neighbors_lower [OF assms] by (simp add: word_sless_alt)
  moreover have "- (2 ^ 31) \<le> sint (data m ! nat u)"
    using sint_ge [of "data m ! nat u"] by simp
  ultimately show ?thesis by simp
qed

text \<open>
  C9.  The recursion of \<open>dfs\<close> ends for every map, every start cell and every vector
  of states: each recursive call is on a cell that \<open>lower_neighbors\<close> returned, the
  elevation of that cell is strictly lower, so the relation between a cell and its
  lower neighbours is well-founded, and there is no cycle in it.
\<close>

theorem dfs_terminates:
  "dfs_dom (m, v, states) \<and>
   wf {(u, v). u \<in> set (lower_neighbors m v)} \<and>
   acyclic {(v, u). u \<in> set (lower_neighbors m v)}"
proof -
  let ?f = "\<lambda>i. nat (sint (data m ! nat i) + 2 ^ 31)"
  have d: "dfs_dom (m, v, states)"
  proof (induction "?f v" arbitrary: v states rule: less_induct)
    case less
    show ?case
    proof (rule dfs.domintros)
      fix xa :: int and xb :: "NodeState list"
      assume "xa \<in> set (lower_neighbors m v)"
      then show "dfs_dom (m, xa, xb)"
        using lower_neighbors_measure [of xa m v] by (intro less) simp
    qed
  qed
  have "{(u, v). u \<in> set (lower_neighbors m v)} \<subseteq> measure ?f"
    using lower_neighbors_measure [of _ m] by auto
  then have w: "wf {(u, v). u \<in> set (lower_neighbors m v)}"
    by (rule wf_subset [OF wf_measure])
  have "{(v, u). u \<in> set (lower_neighbors m v)} = {(u, v). u \<in> set (lower_neighbors m v)}\<inverse>"
    by auto
  with wf_acyclic [OF w] have "acyclic {(v, u). u \<in> set (lower_neighbors m v)}"
    by (simp add: acyclic_converse)
  with d w show ?thesis by simp
qed

section \<open>Longest first, then deepest\<close>

lemma sint_eq_iff32: "(a::int32) = b \<longleftrightarrow> sint a = sint b"
  by (auto intro: signed_word_eqI)

lemma lex_le_refl: "lex_le a a"
  by (simp add: lex_le_def)

lemma lex_le_trans: "lex_le a b \<Longrightarrow> lex_le b c \<Longrightarrow> lex_le a c"
  by (auto simp: lex_le_def)

lemma lex_le_antisym: "lex_le a b \<Longrightarrow> lex_le b a \<Longrightarrow> a = b"
  by (auto simp: lex_le_def prod_eq_iff)

lemma lex_le_linear: "lex_le a b \<or> lex_le b a"
  by (auto simp: lex_le_def)

lemma lex_le_max1: "lex_le a (lex_max a b)"
  by (simp add: lex_max_def lex_le_refl)

lemma lex_le_max2: "lex_le b (lex_max a b)"
  using lex_le_linear [of a b] by (auto simp: lex_max_def lex_le_refl)

lemma is_best_Un:
  assumes "is_best m S x" and "is_best m T y"
  shows "is_best m (S \<union> T) (lex_max x y)"
proof -
  have "\<exists>p\<in>S \<union> T. score m p = lex_max x y"
    using assms by (auto simp: is_best_def lex_max_def)
  moreover have "\<forall>p\<in>S \<union> T. lex_le (score m p) (lex_max x y)"
    using assms lex_le_max1 [of x y] lex_le_max2 [of y x]
    by (auto simp: is_best_def intro: lex_le_trans)
  ultimately show ?thesis by (simp add: is_best_def)
qed

lemma is_best_unique:
  assumes "is_best m S x" and "is_best m S y"
  shows "x = y"
  using assms by (auto simp: is_best_def intro: lex_le_antisym)

lemma reading_better: "reading (better cur new) = lex_max (reading cur) (reading new)"
  by (auto simp: better_def lex_max_def lex_le_def reading_def max_int32_def word_sless_alt
      sint_eq_iff32)

lemma fold_best:
  assumes "\<And>x. x \<in> set xs \<Longrightarrow> is_best m (T x) (reading (g x))"
    and "is_best m S (reading cur)"
  shows "is_best m (S \<union> (\<Union>x\<in>set xs. T x))
           (reading (fold (\<lambda>x cur. better cur (g x)) xs cur))"
  using assms
proof (induction xs arbitrary: S cur)
  case Nil
  then show ?case by simp
next
  case (Cons x xs)
  have "is_best m (S \<union> T x) (reading (better cur (g x)))"
    unfolding reading_better using Cons.prems by (intro is_best_Un) simp_all
  then have "is_best m ((S \<union> T x) \<union> (\<Union>x\<in>set xs. T x))
           (reading (fold (\<lambda>x cur. better cur (g x)) xs (better cur (g x))))"
    using Cons.prems by (intro Cons.IH) simp_all
  moreover have "(S \<union> T x) \<union> (\<Union>x\<in>set xs. T x) = S \<union> (\<Union>x\<in>set (x # xs). T x)"
    by auto
  ultimately show ?case by simp
qed

section \<open>32-bit arithmetic without overflow\<close>

lemma word_of_int_sint32: "word_of_int (sint a) = (a::int32)"
  by simp

lemma sint_of_int32:
  assumes "- (2 ^ 31) \<le> x" "x < 2 ^ 31"
  shows "sint (word_of_int x :: int32) = x"
  using assms by (simp add: sint_sbintrunc' signed_take_bit_int_eq_self)

lemma sint_add_diff32:
  fixes a b c :: int32
  assumes "- (2 ^ 31) \<le> sint a + sint b - sint c" "sint a + sint b - sint c < 2 ^ 31"
  shows "sint (a + b - c) = sint a + sint b - sint c"
proof -
  have "a + b - c = word_of_int (sint a + sint b - sint c)"
    by simp
  then show ?thesis using sint_of_int32 [OF assms] by simp
qed

lemma sint_add1_32:
  fixes a :: int32
  assumes "- (2 ^ 31) \<le> sint a + 1" "sint a + 1 < 2 ^ 31"
  shows "sint (a + 1) = sint a + 1"
proof -
  have "a + 1 = word_of_int (sint a + 1)"
    by simp
  then show ?thesis using sint_of_int32 [OF assms] by simp
qed

section \<open>Descending paths\<close>

lemma descending_path_nonempty: "descending_path m p \<Longrightarrow> p \<noteq> []"
  by auto

lemma descending_path_in_grid: "descending_path m p \<Longrightarrow> x \<in> set p \<Longrightarrow> in_grid m x"
  by (induction m p rule: descending_path.induct) (auto simp: neighbor4_def)

lemma descending_path_tail_lower:
  "descending_path m (v # q) \<Longrightarrow> x \<in> set q \<Longrightarrow> elev m x < elev m v"
proof (induction q arbitrary: v)
  case Nil
  then show ?case by simp
next
  case (Cons u q)
  then have "elev m u < elev m v" "descending_path m (u # q)" by simp_all
  with Cons show ?case by fastforce
qed

lemma descending_path_distinct: "descending_path m p \<Longrightarrow> distinct p"
proof (induction m p rule: descending_path.induct)
  case (3 m v u p)
  then have "distinct (u # p)" by simp
  moreover have "v \<notin> set (u # p)"
    using descending_path_tail_lower [OF "3.prems"] by force
  ultimately show ?case by simp
qed simp_all

lemma descending_path_length:
  assumes "descending_path m p"
  shows "int (length p) \<le> size_m m"
proof -
  have "set p \<subseteq> {0..<size_m m}"
    using descending_path_in_grid [OF assms] by (auto simp: in_grid_def)
  then have "card (set p) \<le> card {0..<size_m m}"
    by (intro card_mono) simp_all
  moreover have "card (set p) = length p"
    using descending_path_distinct [OF assms] by (simp add: distinct_card)
  moreover have "0 < size_m m"
    using descending_path_in_grid [OF assms, of "hd p"] descending_path_nonempty [OF assms]
    by (simp add: in_grid_def)
  ultimately show ?thesis by simp
qed

lemma path_drop_Cons:
  "q \<noteq> [] \<Longrightarrow> path_drop m (v # q) = path_drop m q + elev m v - elev m (hd q)"
  by (simp add: path_drop_def)

lemma descending_path_drop:
  "descending_path m p \<Longrightarrow> int (length p) - 1 \<le> path_drop m p"
proof (induction m p rule: descending_path.induct)
  case (3 m v u p)
  then have "int (length (u # p)) - 1 \<le> path_drop m (u # p)" by simp
  moreover have "elev m u < elev m v" using "3.prems" by simp
  ultimately show ?case by (simp add: path_drop_Cons)
qed (simp_all add: path_drop_def)

lemma descending_path_Cons:
  "descending_path m (v # q) \<longleftrightarrow>
     (q = [] \<and> in_grid m v) \<or>
     (q \<noteq> [] \<and> neighbor4 m v (hd q) \<and> elev m (hd q) < elev m v \<and> descending_path m q)"
  by (cases q) auto

lemma lower_neighbors_iff:
  assumes "safe_map m" and "in_grid m v"
  shows "u \<in> set (lower_neighbors m v) \<longleftrightarrow> neighbor4 m v u \<and> elev m u < elev m v"
  by (simp add: lower_neighbors_set [OF assms] elev_def word_sless_alt)

lemma lower_neighbors_in_grid:
  assumes "safe_map m" and "in_grid m v" and "u \<in> set (lower_neighbors m v)"
  shows "in_grid m u"
  using assms by (simp add: lower_neighbors_iff neighbor4_def)

lemma data_in_set:
  assumes "safe_map m" and "in_grid m x"
  shows "data m ! nat x \<in> set (data m)"
proof -
  have "nat x < length (data m)"
    using assms by (simp add: safe_map_def in_grid_def) linarith
  then show ?thesis by simp
qed

lemma elev_diff:
  assumes "safe_map m" and "in_grid m x" and "in_grid m y"
  shows "elev m x - elev m y < 2 ^ 31"
  using data_in_set [OF assms(1,2)] data_in_set [OF assms(1,3)] assms(1)
  by (simp add: safe_map_def elev_def)

lemma elev_less: "elev m x < 2 ^ 31"
  using sint_lt [of "data m ! nat x"] by (simp add: elev_def)

lemma paths_from_unfold:
  assumes wf: "safe_map m" and v: "in_grid m v"
  shows "paths_from m v = {[v]} \<union> (\<Union>u\<in>set (lower_neighbors m v). (#) v ` paths_from m u)"
    (is "?L = ?R")
proof (rule set_eqI)
  fix p
  show "p \<in> ?L \<longleftrightarrow> p \<in> ?R"
  proof (cases p)
    case Nil
    then show ?thesis by (auto simp: paths_from_def)
  next
    case (Cons w q)
    show ?thesis
    proof (cases "q = []")
      case True
      with Cons v show ?thesis by (auto simp: paths_from_def)
    next
      case False
      with Cons show ?thesis
        by (auto simp: paths_from_def descending_path_Cons lower_neighbors_iff [OF wf v])
    qed
  qed
qed

lemma score_Cons:
  assumes "q \<in> paths_from m u"
  shows "score m (v # q) = (fst (score m q) + 1, snd (score m q) + elev m v - elev m u)"
proof -
  have "q \<noteq> []" "hd q = u"
    using assms by (auto simp: paths_from_def)
  then show ?thesis by (simp add: score_def path_drop_Cons)
qed

lemma lex_le_shift:
  "lex_le a b \<Longrightarrow> lex_le (fst a + 1, snd a + c - d) (fst b + 1, snd b + c - d)"
  by (auto simp: lex_le_def)

lemma is_best_Cons:
  assumes "is_best m (paths_from m u) x"
  shows "is_best m ((#) v ` paths_from m u) (fst x + 1, snd x + elev m v - elev m u)"
proof -
  from assms obtain q where q: "q \<in> paths_from m u" "score m q = x"
    by (auto simp: is_best_def)
  then have "score m (v # q) = (fst x + 1, snd x + elev m v - elev m u)"
    by (simp add: score_Cons)
  with q(1) have "\<exists>p\<in>(#) v ` paths_from m u. score m p = (fst x + 1, snd x + elev m v - elev m u)"
    by blast
  moreover have "lex_le (score m p) (fst x + 1, snd x + elev m v - elev m u)"
    if "p \<in> (#) v ` paths_from m u" for p
  proof -
    from that obtain r where r: "r \<in> paths_from m u" "p = v # r" by auto
    then have "lex_le (score m r) x" using assms by (simp add: is_best_def)
    from lex_le_shift [OF this] r show ?thesis by (simp add: score_Cons)
  qed
  ultimately show ?thesis by (simp add: is_best_def)
qed

lemma reading_candidate:
  assumes wf: "safe_map m" and v: "in_grid m v" and u: "u \<in> set (lower_neighbors m v)"
    and best: "is_best m (paths_from m u) (reading s)"
  shows "reading (candidate m v u s) = (fst (reading s) + 1, snd (reading s) + elev m v - elev m u)"
proof -
  from best obtain q where q: "q \<in> paths_from m u" "score m q = reading s"
    by (auto simp: is_best_def)
  then have len: "int (length q) = sint (fst s) + 1" and dr: "path_drop m q = sint (snd s)"
    by (simp_all add: score_def reading_def)
  have qp: "descending_path m q" "hd q = u" "q \<noteq> []"
    using q(1) by (auto simp: paths_from_def)
  have vq: "descending_path m (v # q)"
    using u qp by (simp add: descending_path_Cons lower_neighbors_iff [OF wf v])
  have "int (length (v # q)) \<le> size_m m"
    by (rule descending_path_length [OF vq])
  then have "sint (fst s) + 1 < 2 ^ 31"
    using len wf by (simp add: safe_map_def)
  moreover have "0 \<le> sint (fst s) + 1"
    using len by linarith
  then have "- (2 ^ 31) \<le> sint (fst s) + 1"
    by simp
  ultimately have d: "sint (fst s + 1) = sint (fst s) + 1"
    by (intro sint_add1_32)
  have "last q \<in> set q" using qp by simp
  then have "elev m v - elev m (last q) < 2 ^ 31" "elev m (last q) < elev m v"
    using descending_path_in_grid [OF qp(1)] elev_diff [OF wf v]
      descending_path_tail_lower [OF vq] by simp_all
  moreover have "sint (snd s) = elev m u - elev m (last q)"
    using dr qp by (simp add: path_drop_def)
  ultimately have "- (2 ^ 31) \<le> sint (snd s) + elev m v - elev m u"
    and "sint (snd s) + elev m v - elev m u < 2 ^ 31"
    by simp_all
  then have "sint (snd s + data m ! nat v - data m ! nat u) = sint (snd s) + elev m v - elev m u"
    unfolding elev_def by (rule sint_add_diff32)
  with d show ?thesis by (simp add: reading_def candidate_def)
qed

text \<open>The reduction computes the best length and drop of the paths from a cell.\<close>

lemma node_value_best:
  "safe_map m \<Longrightarrow> in_grid m v \<Longrightarrow> is_best m (paths_from m v) (reading (node_value m v))"
proof (induction m v rule: node_value.induct)
  case (1 m v)
  let ?T = "\<lambda>u. (#) v ` paths_from m u"
  let ?g = "\<lambda>u. candidate m v u (node_value m u)"
  have "is_best m (?T u) (reading (?g u))" if u: "u \<in> set (lower_neighbors m v)" for u
  proof -
    have "in_grid m u"
      using "1.prems" u by (rule lower_neighbors_in_grid)
    then have b: "is_best m (paths_from m u) (reading (node_value m u))"
      using u "1.prems" by (intro "1.IH")
    show ?thesis
      unfolding reading_candidate [OF "1.prems" u b] by (rule is_best_Cons [OF b])
  qed
  moreover have "is_best m {[v]} (reading (0, 0))"
    by (simp add: is_best_def reading_def score_def path_drop_def lex_le_refl)
  ultimately have "is_best m ({[v]} \<union> (\<Union>u\<in>set (lower_neighbors m v). ?T u))
           (reading (fold (\<lambda>u cur. better cur (?g u)) (lower_neighbors m v) (0, 0)))"
    by (rule fold_best)
  then show ?case
    unfolding paths_from_unfold [OF "1.prems"] by (subst node_value.simps)
qed

section \<open>The memo table\<close>

lemma visited_final [simp]: "visited (final_state m w)"
  by (simp add: final_state_def)

lemma evolves_refl: "evolves m v h st st"
  by (simp add: evolves_def)

lemma evolves_trans:
  assumes "evolves m v h a b" and "evolves m v h b c"
  shows "evolves m v h a c"
  unfolding evolves_def
proof (intro conjI allI impI)
  show "length c = length a" using assms by (simp add: evolves_def)
next
  fix w assume w: "in_grid m w \<and> w \<noteq> v"
  from assms(1) w have ab: "b ! nat w = a ! nat w \<or>
      (\<not> visited (a ! nat w) \<and> elev m w \<le> h \<and> b ! nat w = final_state m w)"
    by (simp add: evolves_def)
  from assms(2) w have bc: "c ! nat w = b ! nat w \<or>
      (\<not> visited (b ! nat w) \<and> elev m w \<le> h \<and> c ! nat w = final_state m w)"
    by (simp add: evolves_def)
  from ab bc show "c ! nat w = a ! nat w \<or>
      (\<not> visited (a ! nat w) \<and> elev m w \<le> h \<and> c ! nat w = final_state m w)"
    by auto
qed

lemma evolves_mono: "evolves m v h st st' \<Longrightarrow> h \<le> h' \<Longrightarrow> evolves m v h' st st'"
  by (fastforce simp: evolves_def)

lemma memo_inv_mono: "memo_inv m h st \<Longrightarrow> h' \<le> h \<Longrightarrow> memo_inv m h' st"
  by (fastforce simp: memo_inv_def)

lemma grid_index:
  assumes "in_grid m w" and "length st = nat (size_m m)"
  shows "nat w < length st"
  using assms by (simp add: in_grid_def)

lemma grid_index_neq:
  assumes "in_grid m w" and "in_grid m v" and "w \<noteq> v"
  shows "nat w \<noteq> nat v"
  using assms unfolding in_grid_def by linarith

lemma dfs_update_eq:
  assumes "nat v < length st" and "nat u \<noteq> nat v"
    and "st ! nat u = final_state m u"
    and "st ! nat v = \<lparr>visited = b, distance = fst cur, drop_n = snd cur\<rparr>"
  shows "dfs_update m v u st =
    st[nat v := \<lparr>visited = b,
                 distance = fst (better cur (candidate m v u (node_value m u))),
                 drop_n = snd (better cur (candidate m v u (node_value m u)))\<rparr>]"
proof -
  let ?c = "candidate m v u (node_value m u)"
  have id: "st[nat v := \<lparr>visited = b, distance = fst cur, drop_n = snd cur\<rparr>] = st"
    using assms(4) list_update_id [of st "nat v"] by simp
  have c: "distance (st ! nat u) + 1 = fst ?c"
    "drop_n (st ! nat u) + data m ! nat v - data m ! nat u = snd ?c"
    using assms(3) by (simp_all add: candidate_def final_state_def)
  have "dfs_update m v u st =
    (if fst cur <s fst ?c
     then st[nat v := \<lparr>visited = b, distance = fst ?c, drop_n = snd ?c\<rparr>]
     else if fst ?c = fst cur
     then st[nat v := \<lparr>visited = b, distance = fst cur,
                       drop_n = max_int32 (snd cur) (snd ?c)\<rparr>]
     else st)"
    unfolding dfs_update_def Let_def c using assms(4) by simp
  also have "\<dots> = st[nat v := \<lparr>visited = b, distance = fst (better cur ?c),
                 drop_n = snd (better cur ?c)\<rparr>]"
    by (simp add: better_def id)
  finally show ?thesis .
qed

lemma memo_inv_final:
  assumes "memo_inv m h st" and "in_grid m w" and "visited (st ! nat w)"
  shows "st ! nat w = final_state m w"
  using assms by (auto simp: memo_inv_def)

lemma memo_inv_init:
  assumes "memo_inv m h st" and "in_grid m w" and "\<not> visited (st ! nat w)" and "elev m w \<le> h"
  shows "st ! nat w = NodeState_init"
  using assms by (auto simp: memo_inv_def)

lemma memo_inv_length: "memo_inv m h st \<Longrightarrow> length st = nat (size_m m)"
  by (simp add: memo_inv_def)

text \<open>After a call for the cell u: the invariant is kept at every level.\<close>

lemma memo_inv_evolves:
  assumes inv: "memo_inv m h st" and ev: "evolves m u k st st'"
    and u: "visited (st' ! nat u) \<longrightarrow> st' ! nat u = final_state m u"
       "\<not> visited (st' ! nat u) \<longrightarrow> h < elev m u"
  shows "memo_inv m h st'"
  unfolding memo_inv_def
proof (intro conjI allI impI)
  show "length st' = nat (size_m m)"
    using inv ev by (simp add: memo_inv_def evolves_def)
next
  fix w assume w: "in_grid m w"
  show "if visited (st' ! nat w) then st' ! nat w = final_state m w
        else elev m w \<le> h \<longrightarrow> st' ! nat w = NodeState_init"
  proof (cases "w = u")
    case True
    with u show ?thesis by auto
  next
    case False
    with ev w have "st' ! nat w = st ! nat w \<or> st' ! nat w = final_state m w"
      by (auto simp: evolves_def)
    then show ?thesis
      using inv w by (auto simp: memo_inv_def)
  qed
qed

lemma evolves_update:
  assumes "evolves m v h st st'" and "in_grid m v"
  shows "evolves m v h st (st'[nat v := x])"
  unfolding evolves_def
proof (intro conjI allI impI)
  show "length (st'[nat v := x]) = length st"
    using assms by (simp add: evolves_def)
next
  fix w assume w: "in_grid m w \<and> w \<noteq> v"
  then have "nat w \<noteq> nat v" using grid_index_neq [of m w v] assms(2) by simp
  then have "st'[nat v := x] ! nat w = st' ! nat w" by simp
  then show "st'[nat v := x] ! nat w = st ! nat w \<or>
     (\<not> visited (st ! nat w) \<and> elev m w \<le> h \<and> st'[nat v := x] ! nat w = final_state m w)"
    using assms(1) w by (simp add: evolves_def)
qed

text \<open>The state of a cell above the level of a call does not change.\<close>

lemma evolves_above:
  assumes "evolves m u h st st'" and "in_grid m v" and "v \<noteq> u" and "h < elev m v"
  shows "st' ! nat v = st ! nat v"
  using assms by (auto simp: evolves_def)

text \<open>A call for \<open>u\<close> inside the loop for \<open>v\<close>, seen from \<open>v\<close>.\<close>

lemma evolves_call:
  assumes ev: "evolves m u (elev m u) st st'" and fin: "st' ! nat u = final_state m u"
    and nv: "\<not> visited (st ! nat u)" and lt: "elev m u \<le> h" and u: "in_grid m u"
  shows "evolves m v h st st'"
  unfolding evolves_def
proof (intro conjI allI impI)
  show "length st' = length st" using ev by (simp add: evolves_def)
next
  fix w assume w: "in_grid m w \<and> w \<noteq> v"
  show "st' ! nat w = st ! nat w \<or>
     (\<not> visited (st ! nat w) \<and> elev m w \<le> h \<and> st' ! nat w = final_state m w)"
  proof (cases "w = u")
    case True
    with fin nv lt show ?thesis by simp
  next
    case False
    with ev w lt show ?thesis by (auto simp: evolves_def)
  qed
qed

lemma dfs_loop:
  assumes wf: "safe_map m" and v: "in_grid m v"
    and IH: "\<And>u st. u \<in> set (lower_neighbors m v) \<Longrightarrow> \<not> visited (st ! nat u) \<Longrightarrow>
               memo_inv m (elev m u) st \<Longrightarrow>
               evolves m u (elev m u) st (dfs m u st) \<and> dfs m u st ! nat u = final_state m u"
    and us: "set us \<subseteq> set (lower_neighbors m v)"
    and inv: "memo_inv m (elev m v - 1) st"
    and cur: "st ! nat v = \<lparr>visited = False, distance = fst cur, drop_n = snd cur\<rparr>"
  shows "memo_inv m (elev m v - 1)
           (fold (\<lambda>u states. dfs_update m v u
                    (if \<not> visited (states ! nat u) then dfs m u states else states)) us st) \<and>
         evolves m v (elev m v - 1) st
           (fold (\<lambda>u states. dfs_update m v u
                    (if \<not> visited (states ! nat u) then dfs m u states else states)) us st) \<and>
         fold (\<lambda>u states. dfs_update m v u
                    (if \<not> visited (states ! nat u) then dfs m u states else states)) us st ! nat v =
           \<lparr>visited = False,
            distance = fst (fold (\<lambda>u cur. better cur (candidate m v u (node_value m u))) us cur),
            drop_n = snd (fold (\<lambda>u cur. better cur (candidate m v u (node_value m u))) us cur)\<rparr>"
  using us inv cur
proof (induction us arbitrary: st cur)
  case Nil
  then show ?case by (simp add: evolves_refl)
next
  case (Cons u us)
  let ?h = "elev m v - 1"
  let ?s1 = "if \<not> visited (st ! nat u) then dfs m u st else st"
  let ?c1 = "better cur (candidate m v u (node_value m u))"
  let ?x = "\<lparr>visited = False, distance = fst ?c1, drop_n = snd ?c1\<rparr>"
  let ?s2 = "?s1[nat v := ?x]"
  from Cons.prems have u: "u \<in> set (lower_neighbors m v)" by simp
  have ug: "in_grid m u" using wf v u by (rule lower_neighbors_in_grid)
  have lt: "elev m u \<le> ?h" using u by (simp add: lower_neighbors_iff [OF wf v])
  then have uv: "u \<noteq> v" by auto
  note inv = Cons.prems(2)
  have len: "length st = nat (size_m m)" using inv by (rule memo_inv_length)
  have s1: "memo_inv m ?h ?s1 \<and> evolves m v ?h st ?s1 \<and> ?s1 ! nat u = final_state m u
      \<and> ?s1 ! nat v = st ! nat v"
  proof (cases "visited (st ! nat u)")
    case True
    then show ?thesis
      using inv memo_inv_final [OF inv ug] by (simp add: evolves_refl)
  next
    case False
    have "memo_inv m (elev m u) st" using inv lt by (rule memo_inv_mono)
    with IH [OF u False] have d: "evolves m u (elev m u) st (dfs m u st)"
      "dfs m u st ! nat u = final_state m u" by simp_all
    have "memo_inv m ?h (dfs m u st)"
      using inv d(1) by (rule memo_inv_evolves) (simp_all add: d(2))
    moreover have "evolves m v ?h st (dfs m u st)"
      using d False lt ug by (rule evolves_call)
    moreover have "dfs m u st ! nat v = st ! nat v"
      using d(1) v _ _ by (rule evolves_above) (use uv lt in simp_all)
    ultimately show ?thesis using False d(2) by simp
  qed
  from s1 have i1: "memo_inv m ?h ?s1" by (rule conjunct1)
  from s1 have e1: "evolves m v ?h st ?s1" by (rule conjunct2 [THEN conjunct1])
  from s1 have f1: "?s1 ! nat u = final_state m u"
    by (rule conjunct2 [THEN conjunct2, THEN conjunct1])
  from s1 have v1: "?s1 ! nat v = st ! nat v"
    by (rule conjunct2 [THEN conjunct2, THEN conjunct2])
  have len1: "length ?s1 = nat (size_m m)" using i1 by (rule memo_inv_length)
  have vi: "nat v < length ?s1" using v len1 by (rule grid_index)
  have ne: "nat u \<noteq> nat v" using ug v uv by (rule grid_index_neq)
  have upd: "dfs_update m v u ?s1 = ?s2"
    using vi ne f1 by (rule dfs_update_eq) (simp only: v1 Cons.prems(3))
  have inv2: "memo_inv m ?h ?s2"
  proof -
    have "evolves m v ?h ?s1 ?s2"
      using evolves_refl v by (rule evolves_update)
    with i1 show ?thesis
      by (rule memo_inv_evolves) (use vi in simp_all)
  qed
  have ev2: "evolves m v ?h st ?s2"
    using e1 v by (rule evolves_update)
  have cur2: "?s2 ! nat v = ?x" using vi by simp
  from Cons.prems(1) have us: "set us \<subseteq> set (lower_neighbors m v)" by simp
  note R = Cons.IH [OF us inv2 cur2]
  have F: "fold (\<lambda>u states. dfs_update m v u
                    (if \<not> visited (states ! nat u) then dfs m u states else states)) (u # us) st
        = fold (\<lambda>u states. dfs_update m v u
                    (if \<not> visited (states ! nat u) then dfs m u states else states)) us ?s2"
    using upd by simp
  show ?case
    unfolding F using R ev2 by (auto intro: evolves_trans)
qed

lemma dfs_memo:
  "safe_map m \<Longrightarrow> in_grid m v \<Longrightarrow> \<not> visited (st ! nat v) \<Longrightarrow> memo_inv m (elev m v) st \<Longrightarrow>
   evolves m v (elev m v) st (dfs m v st) \<and> dfs m v st ! nat v = final_state m v"
proof (induction m v st rule: dfs.induct)
  case (1 m v st)
  let ?L = "fold (\<lambda>u states. dfs_update m v u
                    (if \<not> visited (states ! nat u) then dfs m u states else states))
              (lower_neighbors m v) st"
  note wf = "1.prems"(1) and v = "1.prems"(2) and inv = "1.prems"(4)
  have IH: "evolves m u (elev m u) s (dfs m u s) \<and> dfs m u s ! nat u = final_state m u"
    if "u \<in> set (lower_neighbors m v)" "\<not> visited (s ! nat u)" "memo_inv m (elev m u) s"
    for u s
    using that wf lower_neighbors_in_grid [OF wf v that(1)] by (intro "1.IH") simp_all
  have "st ! nat v = NodeState_init"
    using inv v "1.prems"(3) by (rule memo_inv_init) simp
  then have cur: "st ! nat v = \<lparr>visited = False, distance = fst (0, 0), drop_n = snd (0, 0)\<rparr>"
    by (simp add: NodeState_init_def)
  have inv': "memo_inv m (elev m v - 1) st"
    using inv by (rule memo_inv_mono) simp
  note L = dfs_loop [OF wf v IH subset_refl inv' cur]
  note L1 = L [THEN conjunct1] and L2 = L [THEN conjunct2, THEN conjunct1]
    and L3 = L [THEN conjunct2, THEN conjunct2]
  have Lv: "?L ! nat v = \<lparr>visited = False, distance = fst (node_value m v),
      drop_n = snd (node_value m v)\<rparr>"
    using L3 by (subst (1 2) node_value.simps) simp
  have len: "length ?L = nat (size_m m)"
    using L1 by (rule memo_inv_length)
  have vi: "nat v < length ?L" using v len by (rule grid_index)
  have eq: "dfs m v st = ?L[nat v := final_state m v]"
    by (subst dfs.simps) (simp add: Let_def Lv final_state_def)
  have "evolves m v (elev m v - 1) st (?L[nat v := final_state m v])"
    using L2 v by (rule evolves_update)
  then have "evolves m v (elev m v) st (?L[nat v := final_state m v])"
    by (rule evolves_mono) simp
  then show ?case
    unfolding eq using vi by simp
qed

text \<open>After a call from the loop of solve, every cell is pristine or final.\<close>

lemma dfs_memo_inv:
  assumes "safe_map m" and "in_grid m v" and "\<not> visited (st ! nat v)" and "memo_inv m (2 ^ 31) st"
  shows "memo_inv m (2 ^ 31) (dfs m v st)" and "dfs m v st ! nat v = final_state m v"
proof -
  have "memo_inv m (elev m v) st"
    using assms(4) by (rule memo_inv_mono) (use elev_less [of m v] in simp)
  with assms have d: "evolves m v (elev m v) st (dfs m v st)"
    "dfs m v st ! nat v = final_state m v"
    using dfs_memo [of m v st] by simp_all
  show "dfs m v st ! nat v = final_state m v" by (rule d(2))
  show "memo_inv m (2 ^ 31) (dfs m v st)"
    using assms(4) d(1) by (rule memo_inv_evolves) (simp_all add: d(2))
qed

section \<open>The loop over all cells\<close>

lemma dfs_keeps_visited:
  assumes "safe_map m" and "in_grid m v" and "\<not> visited (st ! nat v)" and "memo_inv m (2 ^ 31) st"
    and "in_grid m w" and "visited (st ! nat w)"
  shows "visited (dfs m v st ! nat w)"
proof -
  have "memo_inv m (elev m v) st"
    using assms(4) by (rule memo_inv_mono) (use elev_less [of m v] in simp)
  with assms have d: "evolves m v (elev m v) st (dfs m v st)"
    using dfs_memo [of m v st] by simp
  have "w \<noteq> v" using assms(3,6) by auto
  with d assms(5,6) show ?thesis by (auto simp: evolves_def)
qed

lemma solve_loop_correct:
  assumes wf: "safe_map m"
  shows "0 \<le> v \<Longrightarrow> memo_inv m (2 ^ 31) st \<Longrightarrow>
    (\<forall>w. in_grid m w \<and> w < v \<longrightarrow> visited (st ! nat w)) \<Longrightarrow>
    \<exists>st'. solve_loop m v (st, acc) =
            (st', fold (\<lambda>w cur. better cur (node_value m w)) [v..size_m m - 1] acc) \<and>
          memo_inv m (2 ^ 31) st' \<and> (\<forall>w. in_grid m w \<longrightarrow> visited (st' ! nat w))"
proof (induction "nat (size_m m - v)" arbitrary: v st acc)
  case 0
  then have "\<not> v < size_m m" by simp
  then have "solve_loop m v (st, acc) = (st, acc)" "[v..size_m m - 1] = []"
    by (cases acc; simp add: solve_loop.simps)+
  moreover have "\<forall>w. in_grid m w \<longrightarrow> visited (st ! nat w)"
    using "0.prems"(3) \<open>\<not> v < size_m m\<close> by (auto simp: in_grid_def)
  ultimately show ?case using "0.prems"(2) by simp
next
  case (Suc n)
  then have lt: "v < size_m m" by simp
  with Suc.prems have v: "in_grid m v" by (simp add: in_grid_def)
  let ?s1 = "if \<not> visited (st ! nat v) then dfs m v st else st"
  let ?acc1 = "better acc (node_value m v)"
  note inv = Suc.prems(2)
  have inv1: "memo_inv m (2 ^ 31) ?s1"
    using dfs_memo_inv(1) [OF wf v _ inv] inv by simp
  have fin: "?s1 ! nat v = final_state m v"
    using dfs_memo_inv(2) [OF wf v _ inv] memo_inv_final [OF inv v] by simp
  have vis: "\<forall>w. in_grid m w \<and> w < v + 1 \<longrightarrow> visited (?s1 ! nat w)"
  proof (intro allI impI)
    fix w assume w: "in_grid m w \<and> w < v + 1"
    show "visited (?s1 ! nat w)"
    proof (cases "w = v")
      case True
      with fin show ?thesis by simp
    next
      case False
      with w have "visited (st ! nat w)" using Suc.prems(3) by simp
      then show ?thesis
        using dfs_keeps_visited [OF wf v _ inv, of w] w by simp
    qed
  qed
  have step: "solve_loop m v (st, acc) = solve_loop m (v + 1) (?s1, ?acc1)"
  proof -
    obtain md mdrop where acc: "acc = (md, mdrop)" by (cases acc)
    have d: "distance (?s1 ! nat v) = fst (node_value m v)"
      "drop_n (?s1 ! nat v) = snd (node_value m v)"
      unfolding fin by (simp_all add: final_state_def)
    show ?thesis
      unfolding acc
      by (subst solve_loop.simps) (simp add: lt Let_def d better_def del: dfs.simps)
  qed
  have n: "n = nat (size_m m - (v + 1))" using Suc.hyps(2) by simp
  have "0 \<le> v + 1" using Suc.prems(1) by simp
  from Suc.hyps(1) [OF n this inv1 vis, of ?acc1]
  obtain st' where st': "solve_loop m (v + 1) (?s1, ?acc1) =
            (st', fold (\<lambda>w cur. better cur (node_value m w)) [v + 1..size_m m - 1] ?acc1)"
     "memo_inv m (2 ^ 31) st'" "\<forall>w. in_grid m w \<longrightarrow> visited (st' ! nat w)"
    by blast
  have "[v..size_m m - 1] = v # [v + 1..size_m m - 1]"
    using lt by (simp add: upto_rec1)
  then have "fold (\<lambda>w cur. better cur (node_value m w)) [v..size_m m - 1] acc =
      fold (\<lambda>w cur. better cur (node_value m w)) [v + 1..size_m m - 1] ?acc1"
    by simp
  with st' step show ?case by simp
qed

lemma memo_inv_init_states: "memo_inv m h (replicate (nat (size_m m)) NodeState_init)"
  by (simp add: memo_inv_def in_grid_def NodeState_init_def)

lemma solve_final_correct:
  assumes wf: "safe_map m"
  shows "\<exists>st'. solve_final m =
            (st', fold (\<lambda>w cur. better cur (node_value m w)) [0..size_m m - 1] (0, 0)) \<and>
          length st' = nat (size_m m) \<and>
          (\<forall>w. in_grid m w \<longrightarrow> st' ! nat w = final_state m w)"
proof -
  have "\<forall>w. in_grid m w \<and> w < 0 \<longrightarrow>
      visited (replicate (nat (size_m m)) NodeState_init ! nat w)"
    by (auto simp: in_grid_def)
  from solve_loop_correct [OF wf _ memo_inv_init_states this, of "(0, 0)"]
  obtain st' where st': "solve_loop m 0 (replicate (nat (size_m m)) NodeState_init, 0, 0) =
            (st', fold (\<lambda>w cur. better cur (node_value m w)) [0..size_m m - 1] (0, 0))"
     "memo_inv m (2 ^ 31) st'" "\<forall>w. in_grid m w \<longrightarrow> visited (st' ! nat w)"
    by auto
  then show ?thesis
    using memo_inv_final [OF st'(2)] memo_inv_length [OF st'(2)]
    by (auto simp: solve_final_def)
qed

lemma all_paths_Union: "all_paths m = (\<Union>v\<in>{v. in_grid m v}. paths_from m v)"
proof -
  have "hd p \<in> set p" if "descending_path m p" for p
    using that descending_path_nonempty by simp
  then show ?thesis
    using descending_path_in_grid by (auto simp: all_paths_def paths_from_def)
qed

lemma grid_upto: "set [0..size_m m - 1] = {v. in_grid m v}"
  by (auto simp: in_grid_def)

lemma fold_cells_best:
  assumes wf: "safe_map m"
  shows "is_best m (all_paths m)
     (reading (fold (\<lambda>w cur. better cur (node_value m w)) [0..size_m m - 1] (0, 0)))"
proof -
  have z: "in_grid m 0" using wf by (simp add: safe_map_def in_grid_def)
  have "is_best m {[0]} (reading (0, 0))"
    by (simp add: is_best_def reading_def score_def path_drop_def lex_le_refl)
  moreover have "is_best m (paths_from m w) (reading (node_value m w))"
    if "w \<in> set [0..size_m m - 1]" for w
    using that wf by (intro node_value_best) (simp_all add: in_grid_def)
  ultimately have "is_best m ({[0]} \<union> (\<Union>w\<in>set [0..size_m m - 1]. paths_from m w))
     (reading (fold (\<lambda>w cur. better cur (node_value m w)) [0..size_m m - 1] (0, 0)))"
    by (intro fold_best)
  moreover have "{[0]} \<union> (\<Union>w\<in>set [0..size_m m - 1]. paths_from m w) = all_paths m"
    unfolding grid_upto all_paths_Union using z by (auto simp: paths_from_def)
  ultimately show ?thesis by simp
qed

lemma is_best_bounds:
  assumes wf: "safe_map m" and "is_best m S x" and "S \<subseteq> all_paths m"
  shows "1 \<le> fst x" and "fst x \<le> size_m m" and "fst x - 1 \<le> snd x"
proof -
  from assms obtain p where p: "descending_path m p" "score m p = x"
    by (auto simp: is_best_def all_paths_def)
  have "p \<noteq> []" using p(1) by auto
  then have "1 \<le> int (length p)" by (cases p) simp_all
  then show "1 \<le> fst x" using p(2) by (auto simp: score_def)
  show "fst x \<le> size_m m"
    using descending_path_length [OF p(1)] p(2) by (auto simp: score_def)
  show "fst x - 1 \<le> snd x"
    using descending_path_drop [OF p(1)] p(2) by (auto simp: score_def)
qed

lemma solve_best:
  assumes wf: "safe_map m"
  shows "\<exists>L D. solve m = [(''Length: '', L), (''Drop: '', D)] \<and> is_best m (all_paths m) (L, D)"
proof -
  let ?r = "fold (\<lambda>w cur. better cur (node_value m w)) [0..size_m m - 1] (0, 0)"
  from solve_final_correct [OF wf] obtain st' where st': "solve_final m = (st', ?r)"
    by blast
  have b: "is_best m (all_paths m) (reading ?r)" by (rule fold_cells_best [OF wf])
  have "1 \<le> fst (reading ?r)" "fst (reading ?r) \<le> size_m m"
    using is_best_bounds [OF wf b] by simp_all
  then have "- (2 ^ 31) \<le> sint (fst ?r) + 1" "sint (fst ?r) + 1 < 2 ^ 31"
    using wf by (simp_all add: reading_def safe_map_def)
  then have "sint (fst ?r + 1) = sint (fst ?r) + 1" by (rule sint_add1_32)
  then have "solve m = [(''Length: '', fst (reading ?r)), (''Drop: '', snd (reading ?r))]"
    by (simp add: solve_def st' reading_def case_prod_beta)
  with b show ?thesis by auto
qed

section \<open>Bounds on the drop\<close>

lemma wf_monotone_row: "wf_map monotone_row"
  by (simp add: wf_map_def monotone_row_def)

lemma elev_range:
  assumes "safe_map m" and "in_grid m x"
  shows "Min (sint ` set (data m)) \<le> elev m x" and "elev m x \<le> Max (sint ` set (data m))"
  using data_in_set [OF assms] by (simp_all add: elev_def)

text \<open>
  C7.  On a well-formed map the printed drop is not negative and is at most the
  greatest elevation of the map less the smallest one.
\<close>

theorem drop_bounds:
  assumes wf_m: "wf_map m"
  shows "\<exists>L D. solve m = [(''Length: '', L), (''Drop: '', D)] \<and>
           0 \<le> D \<and> D \<le> Max (sint ` set (data m)) - Min (sint ` set (data m))"
proof -
  have wf: "safe_map m" using wf_m by (rule wf_map_safe)
  from solve_best [OF wf] obtain L D
    where s: "solve m = [(''Length: '', L), (''Drop: '', D)]"
      and b: "is_best m (all_paths m) (L, D)" by blast
  from b obtain p where p: "descending_path m p" "score m p = (L, D)"
    by (auto simp: is_best_def all_paths_def)
  have "p \<noteq> []" using p(1) by auto
  then have "in_grid m (hd p)" "in_grid m (last p)"
    using descending_path_in_grid [OF p(1)] by simp_all
  then have "elev m (hd p) \<le> Max (sint ` set (data m))"
    "Min (sint ` set (data m)) \<le> elev m (last p)"
    using elev_range [OF wf] by simp_all
  moreover have "D = elev m (hd p) - elev m (last p)"
    using p(2) by (simp add: score_def path_drop_def)
  moreover have "0 \<le> D"
    using is_best_bounds [OF wf b] by simp
  ultimately show ?thesis using s by auto
qed

theorem drop_bounds_witness:
  "wf_map redmart_4x4 \<and>
   (\<exists>L D. solve redmart_4x4 = [(''Length: '', L), (''Drop: '', D)] \<and>
      0 \<le> D \<and> D \<le> Max (sint ` set (data redmart_4x4)) - Min (sint ` set (data redmart_4x4)))"
  using wf_redmart_4x4 drop_bounds [OF wf_redmart_4x4] by (rule conjI)

lemma paths_from_subset: "paths_from m v \<subseteq> all_paths m"
  by (auto simp: paths_from_def all_paths_def)

text \<open>
  C10.  On a well-formed map, when \<open>solve\<close> ends, the drop recorded for each cell is at
  least the distance recorded for it (its path length less one), and the printed drop
  is at least the printed length less one.
\<close>

theorem drop_at_least_distance:
  assumes wf_m: "wf_map m"
  shows "\<exists>states max_distance max_drop L D.
     solve_final m = (states, max_distance, max_drop) \<and>
     (\<forall>v. in_grid m v \<longrightarrow>
        sint (distance (states ! nat v)) \<le> sint (drop_n (states ! nat v))) \<and>
     solve m = [(''Length: '', L), (''Drop: '', D)] \<and> L - 1 \<le> D"
proof -
  have wf: "safe_map m" using wf_m by (rule wf_map_safe)
  from solve_final_correct [OF wf] obtain st r
    where f: "solve_final m = (st, r)"
      and st: "\<forall>w. in_grid m w \<longrightarrow> st ! nat w = final_state m w" by blast
  from solve_best [OF wf] obtain L D
    where s: "solve m = [(''Length: '', L), (''Drop: '', D)]"
      and b: "is_best m (all_paths m) (L, D)" by blast
  have "sint (distance (st ! nat v)) \<le> sint (drop_n (st ! nat v))" if v: "in_grid m v" for v
  proof -
    have "is_best m (paths_from m v) (reading (node_value m v))"
      using wf v by (rule node_value_best)
    from is_best_bounds(3) [OF wf this paths_from_subset] st v
    show ?thesis by (simp add: reading_def final_state_def)
  qed
  moreover have "L - 1 \<le> D"
    using is_best_bounds(3) [OF wf b] by simp
  ultimately show ?thesis using f s by (cases r) auto
qed

theorem drop_at_least_distance_witness:
  "wf_map monotone_row \<and>
   (\<exists>states max_distance max_drop L D.
     solve_final monotone_row = (states, max_distance, max_drop) \<and>
     (\<forall>v. in_grid monotone_row v \<longrightarrow>
        sint (distance (states ! nat v)) \<le> sint (drop_n (states ! nat v))) \<and>
     solve monotone_row = [(''Length: '', L), (''Drop: '', D)] \<and> L - 1 \<le> D)"
  using wf_monotone_row drop_at_least_distance [OF wf_monotone_row] by (rule conjI)

section \<open>Shifting and scaling the elevations\<close>

lemma lex_le_scale:
  assumes "lex_le a b" and "0 < k"
  shows "lex_le (fst a, k * snd a) (fst b, k * snd b)"
  using assms by (auto simp: lex_le_def)

lemma affine_paths:
  assumes geo: "rows m' = rows m" "columns m' = columns m" "size_m m' = size_m m"
    and k: "0 < k"
    and el: "\<And>x. in_grid m x \<Longrightarrow> elev m' x = k * elev m x + c"
  shows "descending_path m' p \<longleftrightarrow> descending_path m p"
proof -
  have g: "in_grid m' = in_grid m"
    using geo by (simp add: in_grid_def fun_eq_iff)
  have n: "neighbor4 m' = neighbor4 m"
    using geo by (simp add: neighbor4_def g cell_row_def cell_column_def fun_eq_iff)
  have lt: "elev m' u < elev m' v \<longleftrightarrow> elev m u < elev m v" if "neighbor4 m v u" for u v
  proof -
    from that have "in_grid m u" "in_grid m v" by (simp_all add: neighbor4_def)
    then show ?thesis using k by (simp add: el)
  qed
  show ?thesis
  proof (induction p)
    case Nil
    then show ?case by simp
  next
    case (Cons v q)
    then show ?case
      unfolding descending_path_Cons g n using lt by auto
  qed
qed

lemma affine_drop:
  assumes el: "\<And>x. in_grid m x \<Longrightarrow> elev m' x = k * elev m x + c"
    and p: "descending_path m p"
  shows "score m' p = (fst (score m p), k * snd (score m p))"
proof -
  have "p \<noteq> []" using p by auto
  then have "in_grid m (hd p)" "in_grid m (last p)"
    using descending_path_in_grid [OF p] by simp_all
  then show ?thesis
    by (simp add: score_def path_drop_def el right_diff_distrib)
qed

lemma affine_best:
  assumes geo: "rows m' = rows m" "columns m' = columns m" "size_m m' = size_m m"
    and k: "0 < k"
    and el: "\<And>x. in_grid m x \<Longrightarrow> elev m' x = k * elev m x + c"
    and b: "is_best m (all_paths m) x"
  shows "is_best m' (all_paths m') (fst x, k * snd x)"
proof -
  have P: "descending_path m' p \<longleftrightarrow> descending_path m p" for p
    using geo k el by (rule affine_paths)
  have S: "score m' p = (fst (score m p), k * snd (score m p))" if "descending_path m p" for p
    using el that by (rule affine_drop)
  from b obtain p where p: "descending_path m p" "score m p = x"
    by (auto simp: is_best_def all_paths_def)
  then have "p \<in> all_paths m'" "score m' p = (fst x, k * snd x)"
    using S [OF p(1)] by (simp_all add: all_paths_def P)
  then have "\<exists>p\<in>all_paths m'. score m' p = (fst x, k * snd x)" by blast
  moreover have "lex_le (score m' q) (fst x, k * snd x)" if "q \<in> all_paths m'" for q
  proof -
    from that have q: "descending_path m q" by (simp add: all_paths_def P)
    then have "lex_le (score m q) x" using b by (simp add: is_best_def all_paths_def)
    from lex_le_scale [OF this k] show ?thesis by (simp add: S [OF q])
  qed
  ultimately show ?thesis by (simp add: is_best_def)
qed

lemma solve_affine:
  assumes wf: "safe_map m" and wf': "safe_map m'"
    and geo: "rows m' = rows m" "columns m' = columns m" "size_m m' = size_m m"
    and k: "0 < k"
    and el: "\<And>x. in_grid m x \<Longrightarrow> elev m' x = k * elev m x + c"
  shows "\<exists>L D. solve m = [(''Length: '', L), (''Drop: '', D)] \<and>
           solve m' = [(''Length: '', L), (''Drop: '', k * D)]"
proof -
  from solve_best [OF wf] obtain L D
    where s: "solve m = [(''Length: '', L), (''Drop: '', D)]"
      and b: "is_best m (all_paths m) (L, D)" by blast
  from solve_best [OF wf'] obtain L' D'
    where s': "solve m' = [(''Length: '', L'), (''Drop: '', D')]"
      and b': "is_best m' (all_paths m') (L', D')" by blast
  have "is_best m' (all_paths m') (L, k * D)"
    using affine_best [OF geo k el b] by simp
  with b' have "(L', D') = (L, k * D)" by (rule is_best_unique)
  with s s' show ?thesis by simp
qed

lemma safe_map_data:
  assumes "safe_map m"
    and "\<And>a b. a \<in> set (data m) \<Longrightarrow> b \<in> set (data m) \<Longrightarrow> sint (f a) - sint (f b) < 2 ^ 31"
  shows "safe_map (m\<lparr>data := map f (data m)\<rparr>)"
  using assms by (auto simp: safe_map_def)

lemma wf_map_data:
  assumes "wf_map m"
    and "\<And>e. e \<in> set (data m) \<Longrightarrow> 0 \<le> sint (f e)"
  shows "wf_map (m\<lparr>data := map f (data m)\<rparr>)"
  using assms by (auto simp: wf_map_def)

lemma elev_map_data:
  assumes wf: "safe_map m" and x: "in_grid m x"
  shows "elev (m\<lparr>data := map f (data m)\<rparr>) x = sint (f (data m ! nat x))"
proof -
  have "nat x < length (data m)"
    using assms by (simp add: safe_map_def in_grid_def) linarith
  then show ?thesis by (simp add: elev_def)
qed

text \<open>
  C5.  On a well-formed map, adding the integer \<open>c\<close> to every elevation leaves both
  printed lines as they are, for every \<open>c\<close> for which the new elevations are 32-bit
  integers.
\<close>

theorem add_constant_invariant:
  assumes wf: "wf_map m"
    and fits: "\<forall>e\<in>set (data m). - (2 ^ 31) \<le> sint e + c \<and> sint e + c < 2 ^ 31"
  shows "solve (add_elev c m) = solve m"
proof -
  note safe = wf_map_safe [OF wf]
  have s: "sint (word_of_int (sint e + c) :: int32) = sint e + c" if "e \<in> set (data m)" for e
    using that fits by (intro sint_of_int32) auto
  have safe': "safe_map (add_elev c m)"
    unfolding add_elev_def using safe
  proof (rule safe_map_data)
    fix a b assume ab: "a \<in> set (data m)" "b \<in> set (data m)"
    then have "sint a - sint b < 2 ^ 31"
      using safe by (simp add: safe_map_def)
    then show "sint (word_of_int (sint a + c) :: int32) - sint (word_of_int (sint b + c) :: int32)
        < 2 ^ 31"
      unfolding s [OF ab(1)] s [OF ab(2)] by simp
  qed
  have el: "elev (add_elev c m) x = 1 * elev m x + c" if "in_grid m x" for x
    unfolding add_elev_def elev_map_data [OF safe that]
    using s [OF data_in_set [OF safe that]] by (simp add: elev_def)
  have "\<exists>L D. solve m = [(''Length: '', L), (''Drop: '', D)] \<and>
           solve (add_elev c m) = [(''Length: '', L), (''Drop: '', 1 * D)]"
    using safe safe' _ _ _ _ el by (rule solve_affine) (simp_all add: add_elev_def)
  then show ?thesis by auto
qed

text \<open>
  C6.  On a well-formed map, multiplying every elevation by the positive integer \<open>k\<close>
  leaves the printed length as it is and multiplies the printed drop by \<open>k\<close>, for every
  \<open>k\<close> for which the new elevations are 32-bit integers.
\<close>

theorem scale_multiplies_drop:
  assumes wf: "wf_map m" and k: "0 < k"
    and fits: "\<forall>e\<in>set (data m). k * sint e < 2 ^ 31"
  shows "\<exists>L D. solve m = [(''Length: '', L), (''Drop: '', D)] \<and>
           solve (scale_elev k m) = [(''Length: '', L), (''Drop: '', k * D)]"
proof -
  note safe = wf_map_safe [OF wf]
  have nn: "0 \<le> k * sint e" if "e \<in> set (data m)" for e
    using that wf k by (simp add: wf_map_def)
  have s: "sint (word_of_int (k * sint e) :: int32) = k * sint e" if "e \<in> set (data m)" for e
    using that fits nn [OF that] by (intro sint_of_int32) auto
  have "wf_map (scale_elev k m)"
    unfolding scale_elev_def using wf
  proof (rule wf_map_data)
    fix e assume e: "e \<in> set (data m)"
    show "0 \<le> sint (word_of_int (k * sint e) :: int32)"
      unfolding s [OF e] by (rule nn [OF e])
  qed
  then have safe': "safe_map (scale_elev k m)" by (rule wf_map_safe)
  have el: "elev (scale_elev k m) x = k * elev m x + 0" if "in_grid m x" for x
    unfolding scale_elev_def elev_map_data [OF safe that]
    using s [OF data_in_set [OF safe that]] by (simp add: elev_def)
  show ?thesis
    using safe safe' _ _ _ k el by (rule solve_affine) (simp_all add: scale_elev_def)
qed

lemma wf_plateau_2x2: "wf_map plateau_2x2"
  by (simp add: wf_map_def plateau_2x2_def)

lemma wf_branching_peak: "wf_map branching_peak"
  by (simp add: wf_map_def branching_peak_def)

lemma solve_monotone_row: "solve monotone_row = [(''Length: '', 4), (''Drop: '', 3)]"
  by code_simp

theorem add_constant_invariant_witness:
  "wf_map monotone_row \<and> data (add_elev 100 monotone_row) = [101, 102, 103, 104] \<and>
   lower_neighbors (add_elev 100 monotone_row) 3 = [2] \<and>
   solve (add_elev 100 monotone_row) = solve monotone_row \<and>
   solve (add_elev 100 monotone_row) = [(''Length: '', 4), (''Drop: '', 3)]"
proof -
  have f: "\<forall>e\<in>set (data monotone_row). - (2 ^ 31) \<le> sint e + 100 \<and> sint e + 100 < 2 ^ 31"
    by (simp add: monotone_row_def)
  have d: "data (add_elev 100 monotone_row) = [101, 102, 103, 104]"
    by (simp add: add_elev_def monotone_row_def)
  have n: "lower_neighbors (add_elev 100 monotone_row) 3 = [2]"
    by (simp add: lower_neighbors_def add_elev_def monotone_row_def sdiv_nonneg smod_nonneg)
  from add_constant_invariant [OF wf_monotone_row f] wf_monotone_row d n solve_monotone_row
  show ?thesis by simp
qed

theorem scale_multiplies_drop_witness:
  "wf_map branching_peak \<and> (0::int) < 1000 \<and>
   data (scale_elev 1000 branching_peak) =
     [1000, 2000, 1000, 2000, 9000, 2000, 1000, 2000, 1000] \<and>
   (\<exists>L D. solve branching_peak = [(''Length: '', L), (''Drop: '', D)] \<and>
           solve (scale_elev 1000 branching_peak) = [(''Length: '', L), (''Drop: '', 1000 * D)])"
proof -
  have k: "(0::int) < 1000" by simp
  have f: "\<forall>e\<in>set (data branching_peak). 1000 * sint e < 2 ^ 31"
    by (simp add: branching_peak_def)
  have "data (scale_elev 1000 branching_peak) =
     [1000, 2000, 1000, 2000, 9000, 2000, 1000, 2000, 1000]"
    by (simp add: scale_elev_def branching_peak_def)
  with scale_multiplies_drop [OF wf_branching_peak k f] wf_branching_peak k
  show ?thesis by blast
qed

section \<open>The solver meets its specification\<close>

lemma finite_all_paths: "finite (all_paths m)"
proof -
  have "all_paths m \<subseteq> {p. set p \<subseteq> {0..<size_m m} \<and> length p \<le> nat (size_m m)}"
    using descending_path_in_grid descending_path_length
    by (fastforce simp: all_paths_def in_grid_def)
  moreover have "finite {p. set p \<subseteq> {0..<size_m m} \<and> length p \<le> nat (size_m m)}"
    by (rule finite_lists_length_le) simp
  ultimately show ?thesis by (rule finite_subset)
qed

lemma is_best_Max:
  assumes fin: "finite S" and b: "is_best m S x"
  shows "Max {int (length p) | p. p \<in> S} = fst x"
    and "Max {path_drop m p | p. p \<in> S \<and> int (length p) = fst x} = snd x"
proof -
  from b obtain q where q: "q \<in> S" "score m q = x" by (auto simp: is_best_def)
  have le: "lex_le (score m p) x" if "p \<in> S" for p
    using b that by (simp add: is_best_def)
  show "Max {int (length p) | p. p \<in> S} = fst x"
  proof (rule Max_eqI)
    show "finite {int (length p) | p. p \<in> S}" using fin by simp
    show "y \<le> fst x" if "y \<in> {int (length p) | p. p \<in> S}" for y
    proof -
      from that obtain p where "p \<in> S" "y = int (length p)" by auto
      with le [of p] show ?thesis by (auto simp: lex_le_def score_def)
    qed
    show "fst x \<in> {int (length p) | p. p \<in> S}"
      using q by (auto simp: score_def)
  qed
  show "Max {path_drop m p | p. p \<in> S \<and> int (length p) = fst x} = snd x"
  proof (rule Max_eqI)
    show "finite {path_drop m p | p. p \<in> S \<and> int (length p) = fst x}" using fin by simp
    show "y \<le> snd x" if "y \<in> {path_drop m p | p. p \<in> S \<and> int (length p) = fst x}" for y
    proof -
      from that obtain p where "p \<in> S" "int (length p) = fst x" "y = path_drop m p" by auto
      with le [of p] show ?thesis by (auto simp: lex_le_def score_def)
    qed
    show "snd x \<in> {path_drop m p | p. p \<in> S \<and> int (length p) = fst x}"
      using q by (auto simp: score_def)
  qed
qed

lemma length_drop_of:
  assumes "safe_map m" and "in_grid m v"
  shows "length_of m v = fst (reading (node_value m v))"
    and "drop_of m v = snd (reading (node_value m v))"
proof -
  have fin: "finite (paths_from m v)"
    using paths_from_subset finite_all_paths by (rule finite_subset)
  note M = is_best_Max [OF fin node_value_best [OF assms]]
  show l: "length_of m v = fst (reading (node_value m v))"
    unfolding length_of_def by (rule M(1))
  show "drop_of m v = snd (reading (node_value m v))"
    unfolding drop_of_def l by (rule M(2))
qed

lemma best_length_drop:
  assumes safe: "safe_map m" and b: "is_best m (all_paths m) r"
  shows "best_length m = fst r" and "best_drop m = snd r"
proof -
  let ?x = "\<lambda>v. reading (node_value m v)"
  have fin: "finite {v. in_grid m v}"
  proof -
    have "{v. in_grid m v} = {0..<size_m m}" by (auto simp: in_grid_def)
    then show ?thesis by simp
  qed
  have cell: "lex_le (?x v) r" if "in_grid m v" for v
  proof -
    from node_value_best [OF safe that] obtain p
      where p: "p \<in> paths_from m v" "score m p = ?x v" by (auto simp: is_best_def)
    then have "p \<in> all_paths m" using paths_from_subset [of m v] by auto
    then have "lex_le (score m p) r" using b by (simp add: is_best_def)
    then show ?thesis by (simp add: p(2))
  qed
  from b obtain q where q: "descending_path m q" "score m q = r"
    by (auto simp: is_best_def all_paths_def)
  have hq: "in_grid m (hd q)"
    using descending_path_in_grid [OF q(1), of "hd q"] descending_path_nonempty [OF q(1)]
    by simp
  have "q \<in> paths_from m (hd q)" using q(1) by (simp add: paths_from_def)
  then have "lex_le r (?x (hd q))"
    using node_value_best [OF safe hq] q(2) by (auto simp: is_best_def)
  with cell [OF hq] have top: "?x (hd q) = r" by (rule lex_le_antisym)
  show l: "best_length m = fst r"
    unfolding best_length_def
  proof (rule Max_eqI)
    show "finite {length_of m v | v. in_grid m v}" using fin by simp
    show "y \<le> fst r" if "y \<in> {length_of m v | v. in_grid m v}" for y
    proof -
      from that obtain v where v: "in_grid m v" "y = length_of m v" by auto
      with cell [OF v(1)] show ?thesis
        by (auto simp: length_drop_of [OF safe v(1)] lex_le_def)
    qed
    have "fst r = length_of m (hd q)"
      using top length_drop_of(1) [OF safe hq] by simp
    then show "fst r \<in> {length_of m v | v. in_grid m v}"
      using hq by (intro CollectI exI [of _ "hd q"] conjI)
  qed
  show "best_drop m = snd r"
    unfolding best_drop_def l
  proof (rule Max_eqI)
    show "finite {drop_of m v | v. in_grid m v \<and> length_of m v = fst r}" using fin by simp
    show "y \<le> snd r" if "y \<in> {drop_of m v | v. in_grid m v \<and> length_of m v = fst r}" for y
    proof -
      from that obtain v where v: "in_grid m v" "length_of m v = fst r" "y = drop_of m v"
        by auto
      with cell [OF v(1)] show ?thesis
        by (auto simp: length_drop_of [OF safe v(1)] lex_le_def)
    qed
    have "snd r = drop_of m (hd q)" "length_of m (hd q) = fst r"
      using top length_drop_of [OF safe hq] by simp_all
    then show "snd r \<in> {drop_of m v | v. in_grid m v \<and> length_of m v = fst r}"
      using hq by (intro CollectI exI [of _ "hd q"] conjI)
  qed
qed

text \<open>
  C1.  On a well-formed map (which is not empty), when the loop of \<open>solve\<close> ends every
  cell is visited, and its distance and drop are the reduction, by the tie-break rule, of
  the candidates built from the distances and drops of its lower neighbours; the
  distance plus one is the greatest length of a descending path from the cell and the
  drop is the greatest drop of a path of that length from the cell.  The length printed
  is the greatest of these lengths over all cells, and the drop printed is the greatest
  of these drops over the cells whose length is the one printed.
\<close>

theorem solve_longest_then_deepest:
  assumes wf: "wf_map m"
  shows "\<exists>states max_distance max_drop.
     solve_final m = (states, max_distance, max_drop) \<and>
     (\<forall>v. in_grid m v \<longrightarrow>
        visited (states ! nat v) \<and>
        (distance (states ! nat v), drop_n (states ! nat v)) =
          fold (\<lambda>u cur. better cur (candidate m v u
                  (distance (states ! nat u), drop_n (states ! nat u))))
            (lower_neighbors m v) (0, 0) \<and>
        sint (distance (states ! nat v)) + 1 = length_of m v \<and>
        sint (drop_n (states ! nat v)) = drop_of m v) \<and>
     solve m = [(''Length: '', best_length m), (''Drop: '', best_drop m)]"
proof -
  note safe = wf_map_safe [OF wf]
  from solve_final_correct [OF safe] obtain st r
    where f: "solve_final m = (st, r)"
      and st: "\<And>w. in_grid m w \<Longrightarrow> st ! nat w = final_state m w" by blast
  have val: "(distance (st ! nat w), drop_n (st ! nat w)) = node_value m w" if "in_grid m w" for w
    by (simp add: st [OF that] final_state_def)
  have cell: "visited (st ! nat v) \<and>
        (distance (st ! nat v), drop_n (st ! nat v)) =
          fold (\<lambda>u cur. better cur (candidate m v u
                  (distance (st ! nat u), drop_n (st ! nat u))))
            (lower_neighbors m v) (0, 0) \<and>
        sint (distance (st ! nat v)) + 1 = length_of m v \<and>
        sint (drop_n (st ! nat v)) = drop_of m v" if v: "in_grid m v" for v
  proof -
    have "fold (\<lambda>u cur. better cur (candidate m v u
                  (distance (st ! nat u), drop_n (st ! nat u))))
            (lower_neighbors m v) (0, 0) =
          fold (\<lambda>u cur. better cur (candidate m v u (node_value m u)))
            (lower_neighbors m v) (0, 0)"
      using val lower_neighbors_in_grid [OF safe v] by (intro fold_cong) simp_all
    also have "\<dots> = node_value m v"
      by (subst (2) node_value.simps) simp
    finally show ?thesis
      using val [OF v] length_drop_of [OF safe v] st [OF v]
      by (simp add: reading_def final_state_def)
  qed
  from solve_best [OF safe] obtain L D
    where s: "solve m = [(''Length: '', L), (''Drop: '', D)]"
      and b: "is_best m (all_paths m) (L, D)" by blast
  from best_length_drop [OF safe b] s
  have "solve m = [(''Length: '', best_length m), (''Drop: '', best_drop m)]" by simp
  with f cell show ?thesis by (cases r) auto
qed

lemma wf_tie_break_3x2: "wf_map tie_break_3x2"
  by (simp add: wf_map_def tie_break_3x2_def)

theorem solve_longest_then_deepest_witness:
  "wf_map tie_break_3x2 \<and>
   (\<exists>states max_distance max_drop.
     solve_final tie_break_3x2 = (states, max_distance, max_drop) \<and>
     (\<forall>v. in_grid tie_break_3x2 v \<longrightarrow>
        visited (states ! nat v) \<and>
        (distance (states ! nat v), drop_n (states ! nat v)) =
          fold (\<lambda>u cur. better cur (candidate tie_break_3x2 v u
                  (distance (states ! nat u), drop_n (states ! nat u))))
            (lower_neighbors tie_break_3x2 v) (0, 0) \<and>
        sint (distance (states ! nat v)) + 1 = length_of tie_break_3x2 v \<and>
        sint (drop_n (states ! nat v)) = drop_of tie_break_3x2 v) \<and>
     solve tie_break_3x2 =
       [(''Length: '', best_length tie_break_3x2), (''Drop: '', best_drop tie_break_3x2)])"
  using wf_tie_break_3x2 solve_longest_then_deepest [OF wf_tie_break_3x2] by (rule conjI)

end
